theory Spec2Isabelle
  imports Main "HOL-Library.Sublist" "HOL-Library.Char_ord" "HOL-Library.List_Lexorder"
    "HOL-Library.AList"
begin

section \<open>The packaging script \<^verbatim>\<open>package.py\<close>\<close>

text \<open>
  A shallow embedding of \<^verbatim>\<open>package.py\<close>, the script that writes a Thunderstore
  manifest and zips a mod. Python \<^verbatim>\<open>str\<close> values are HOL strings; a character stands
  for the code point of the same number, so the model covers text whose code points are
  below 256. Log output is not part of the model. A call of \<^verbatim>\<open>sys.exit\<close> and an
  exception nobody catches both end the process; functions that can end it return a sum
  whose left side says how.
\<close>

subsection \<open>Python string operations\<close>

text \<open>\<^verbatim>\<open>str.startswith\<close>.\<close>

definition str_startswith :: "string \<Rightarrow> string \<Rightarrow> bool" where
  "str_startswith s p \<longleftrightarrow> take (length p) s = p"

text \<open>
  \<^verbatim>\<open>str.isspace\<close> on one character, which is also the class \<^verbatim>\<open>\s\<close> of \<^verbatim>\<open>re\<close> on
  \<^verbatim>\<open>str\<close> patterns: tab to carriage return, the four separators 28 to 31, the space,
  NEL (133) and the no-break space (160).
\<close>

definition py_isspace :: "char \<Rightarrow> bool" where
  "py_isspace c \<longleftrightarrow>
     (let n = (of_char c :: nat)
      in (9 \<le> n \<and> n \<le> 13) \<or> (28 \<le> n \<and> n \<le> 32) \<or> n = 133 \<or> n = 160)"

text \<open>\<^verbatim>\<open>str.strip()\<close> with no argument.\<close>

definition str_strip :: "string \<Rightarrow> string" where
  "str_strip s = rev (dropWhile py_isspace (rev (dropWhile py_isspace s)))"

text \<open>
  \<^verbatim>\<open>str.replace(old, new)\<close> for a non-empty \<^verbatim>\<open>old\<close>: every occurrence, found from the
  left, none overlapping. (With an empty \<^verbatim>\<open>old\<close> Python inserts \<^verbatim>\<open>new\<close> around every
  character; the script never does that, and the model leaves the string as it is.)
\<close>

fun str_replace :: "string \<Rightarrow> string \<Rightarrow> string \<Rightarrow> string" where
  "str_replace old new [] = []"
| "str_replace old new (c # cs) =
     (if old \<noteq> [] \<and> take (length old) (c # cs) = old
      then new @ str_replace old new (drop (length old) (c # cs))
      else c # str_replace old new cs)"

text \<open>\<^verbatim>\<open>sep.join(xs)\<close>.\<close>

fun str_join :: "string \<Rightarrow> string list \<Rightarrow> string" where
  "str_join sep [] = []"
| "str_join sep [x] = x"
| "str_join sep (x # y # ys) = x @ sep @ str_join sep (y # ys)"

subsection \<open>How the process ends\<close>

datatype exn =
  FileNotFoundError | NotADirectoryError | IsADirectoryError | FileExistsError
  | SameFileError | PermissionError | UnicodeDecodeError | ParseError

text \<open>
  \<open>SysExit n\<close> is \<^verbatim>\<open>sys.exit(n)\<close>; \<open>Uncaught e\<close> is an exception that reaches the top
  level, after which the interpreter prints a traceback and exits with status 1.
\<close>

datatype abort = SysExit int | Uncaught exn

fun exit_code :: "abort \<Rightarrow> int" where
  "exit_code (SysExit n) = n"
| "exit_code (Uncaught e) = 1"

subsection \<open>\<^verbatim>\<open>get_github_url\<close>\<close>

text \<open>
  What \<^verbatim>\<open>subprocess.run(["git", "remote", "get-url", "origin"], check=False)\<close> does:
  it returns a completed process, or raises (\<open>FileNotFoundError\<close> when there is no
  \<^verbatim>\<open>git\<close> to run).
\<close>

datatype completed_process =
  Completed (returncode: int) (stdout: string) (stderr: string)
  | Raised exn

definition https_prefix :: string where
  "https_prefix = ''https://github.com/''"

definition ssh_prefix :: string where
  "ssh_prefix = ''git@github.com:''"

text \<open>
  The \<^verbatim>\<open>try\<close> block catches \<open>FileNotFoundError\<close> only; any other exception of
  \<^verbatim>\<open>subprocess.run\<close> leaves the function.
\<close>

fun get_github_url :: "completed_process \<Rightarrow> abort + string" where
  "get_github_url (Raised e) = (if e = FileNotFoundError then Inr [] else Inl (Uncaught e))"
| "get_github_url (Completed rc out err) =
     (if rc = 0 then
        (let result = str_strip out
         in if str_startswith result https_prefix then Inr result
            else if str_startswith result ssh_prefix
            then Inr (str_replace ssh_prefix https_prefix result)
            else Inr [])
      else Inr [])"

text \<open>
  The conversion as the specification words it: the SSH host prefix at the start of the
  URL is exchanged for the HTTPS one, and the rest of the URL is kept.
\<close>

definition ssh_to_https_spec :: "string \<Rightarrow> string" where
  "ssh_to_https_spec url = https_prefix @ drop (length ssh_prefix) url"


subsection \<open>\<^verbatim>\<open>get_description\<close>: the scan of the README\<close>

text \<open>
  A text file opened with the default \<^verbatim>\<open>newline=None\<close> has \<^verbatim>\<open>\r\n\<close> and a lone \<^verbatim>\<open>\r\<close>
  translated to \<^verbatim>\<open>\n\<close>; \<^verbatim>\<open>readlines\<close> then ends a line after each \<^verbatim>\<open>\n\<close> and keeps it.
\<close>

fun universal_newlines :: "string \<Rightarrow> string" where
  "universal_newlines [] = []"
| "universal_newlines [c] = (if c = CHR 0x0D then [CHR 0x0A] else [c])"
| "universal_newlines (c # d # cs) =
     (if c = CHR 0x0D \<and> d = CHR 0x0A then CHR 0x0A # universal_newlines cs
      else if c = CHR 0x0D then CHR 0x0A # universal_newlines (d # cs)
      else c # universal_newlines (d # cs))"

fun readlines :: "string \<Rightarrow> string list" where
  "readlines [] = []"
| "readlines (c # cs) =
     (if c = CHR 0x0A then [c] # readlines cs
      else (case readlines cs of [] \<Rightarrow> [[c]] | l # ls \<Rightarrow> (c # l) # ls))"

text \<open>
  \<^verbatim>\<open>re.compile(r"^#+\s*Summary", re.IGNORECASE).match(line)\<close>: one or more \<^verbatim>\<open>#\<close>
  at the start of the line, any whitespace, then the word in either case; what follows
  the word is not looked at. Neither repetition can give a character back to what
  follows it (a \<^verbatim>\<open>#\<close> is not whitespace, whitespace is no letter), so the greedy
  reading below is the only match. On code points below 256 only the ASCII letters
  fold to the letters of the word.
\<close>

definition lower_code :: "nat \<Rightarrow> nat" where
  "lower_code n = (if 65 \<le> n \<and> n \<le> 90 then n + 32 else n)"

definition summary_header_pattern_match :: "string \<Rightarrow> bool" where
  "summary_header_pattern_match line \<longleftrightarrow>
     str_startswith line ''#'' \<and>
     map (lower_code \<circ> of_char)
       (take 7 (dropWhile py_isspace (dropWhile (\<lambda>c. c = CHR ''#'') line)))
     = map of_char ''summary''"

text \<open>
  The \<^verbatim>\<open>for\<close> loop over the lines, with its two variables \<^verbatim>\<open>in_summary_section\<close> and
  \<^verbatim>\<open>summary_content\<close>; \<^verbatim>\<open>break\<close> returns what was collected.
\<close>

fun scan_summary :: "bool \<Rightarrow> string list \<Rightarrow> string list \<Rightarrow> string list" where
  "scan_summary in_summary_section summary_content [] = summary_content"
| "scan_summary in_summary_section summary_content (line # lines) =
     (if summary_header_pattern_match line then scan_summary True summary_content lines
      else if str_startswith line ''#'' \<and> in_summary_section then summary_content
      else if in_summary_section then
        (let stripped_line = str_strip line
         in if stripped_line \<noteq> []
            then scan_summary in_summary_section (summary_content @ [stripped_line]) lines
            else scan_summary in_summary_section summary_content lines)
      else scan_summary in_summary_section summary_content lines)"

text \<open>What \<^verbatim>\<open>get_description\<close> returns once it has read the text of the README.\<close>

definition description_of :: "string \<Rightarrow> string" where
  "description_of readme =
     (let summary_content = scan_summary False [] (readlines (universal_newlines readme))
      in if summary_content \<noteq> [] then str_join '' '' summary_content else [])"

text \<open>
  The description as the specification words it: the lines after the first Summary
  heading, up to the next line that starts with \<^verbatim>\<open>#\<close>, trimmed, the empty ones left
  out, joined by single spaces; the empty string when there is no Summary heading.
\<close>

definition description_spec :: "string \<Rightarrow> string" where
  "description_spec readme =
     (case dropWhile (\<lambda>l. \<not> summary_header_pattern_match l)
             (readlines (universal_newlines readme)) of
        [] \<Rightarrow> []
      | heading # following \<Rightarrow>
          str_join '' ''
            (filter (\<lambda>l. l \<noteq> [])
               (map str_strip (takeWhile (\<lambda>l. \<not> str_startswith l ''#'') following))))"

subsection \<open>The project file as an element tree\<close>

text \<open>
  An \<^verbatim>\<open>xml.etree.ElementTree.Element\<close>: its tag, its \<^verbatim>\<open>text\<close> (\<^verbatim>\<open>None\<close> when the element
  has no text before its first child) and its children. Attributes and tails are never
  read by the script.
\<close>

datatype element = Element (tag: string) (elem_text: "string option") (children: "element list")

text \<open>\<^verbatim>\<open>Element.iter()\<close>: the element and all its descendants in document order.\<close>

fun iter :: "element \<Rightarrow> element list" where
  "iter (Element t x cs) = Element t x cs # concat (map iter cs)"

text \<open>
  \<^verbatim>\<open>root.find(".//A/B")\<close>. ElementPath compiles the path to three steps: \<^verbatim>\<open>.\<close> keeps
  the root; \<^verbatim>\<open>//A\<close> selects, in document order, every element of \<^verbatim>\<open>root.iter("A")\<close> but
  the root itself; \<^verbatim>\<open>/B\<close> selects of each the children tagged \<^verbatim>\<open>B\<close>. \<^verbatim>\<open>find\<close> returns the
  first element selected, or \<^verbatim>\<open>None\<close>. The three paths of the script have this shape,
  and the model writes a path as the pair of its tags.
\<close>

definition findall :: "element \<Rightarrow> string \<times> string \<Rightarrow> element list" where
  "findall root xml_path =
     concat (map (\<lambda>g. filter (\<lambda>e. tag e = snd xml_path) (children g))
       (filter (\<lambda>e. tag e = fst xml_path) (concat (map iter (children root)))))"

definition find :: "element \<Rightarrow> string \<times> string \<Rightarrow> element option" where
  "find root xml_path = (case findall root xml_path of [] \<Rightarrow> None | e # _ \<Rightarrow> Some e)"

text \<open>
  The fields of a project file, said without the lookup. An element lies below another
  when it is one of its children or lies below one of them. An element is a field for
  \<^verbatim>\<open>.//A/B\<close> when it is tagged \<^verbatim>\<open>B\<close> and is a child of an element tagged \<^verbatim>\<open>A\<close> that lies
  below the root. The field holds the text \<open>t\<close> when the tree has such an element and
  all of them have the text \<open>t\<close>; this is so when the field is written once.
\<close>

fun below :: "element \<Rightarrow> element \<Rightarrow> bool" where
  "below g (Element t x cs) \<longleftrightarrow> g \<in> set cs \<or> (\<exists>c \<in> set cs. below g c)"

definition is_field :: "element \<Rightarrow> string \<times> string \<Rightarrow> element \<Rightarrow> bool" where
  "is_field root xml_path e \<longleftrightarrow>
     tag e = snd xml_path
     \<and> (\<exists>g. below g root \<and> tag g = fst xml_path \<and> e \<in> set (children g))"

definition field_holds :: "element \<Rightarrow> string \<times> string \<Rightarrow> string \<Rightarrow> bool" where
  "field_holds root xml_path t \<longleftrightarrow>
     (\<exists>e. is_field root xml_path e)
     \<and> (\<forall>e. is_field root xml_path e \<longrightarrow> elem_text e = Some t)"

subsection \<open>Paths and the file system\<close>

text \<open>
  A path is the list of its components below the file system's root; every path of the
  script is absolute, since \<^verbatim>\<open>PROJECT_ROOT\<close> is \<^verbatim>\<open>Path.cwd()\<close>. \<^verbatim>\<open>pathlib\<close> splits a string
  at \<^verbatim>\<open>/\<close>, drops empty components and \<^verbatim>\<open>.\<close>, keeps \<^verbatim>\<open>..\<close>, and lets an absolute right
  operand of \<^verbatim>\<open>/\<close> replace the left one (POSIX flavour).
\<close>

type_synonym path = "string list"

fun split_slash :: "string \<Rightarrow> string list" where
  "split_slash [] = [[]]"
| "split_slash (c # cs) =
     (if c = CHR ''/'' then [] # split_slash cs
      else (case split_slash cs of [] \<Rightarrow> [[c]] | x # xs \<Rightarrow> (c # x) # xs))"

definition parts :: "string \<Rightarrow> string list" where
  "parts s = filter (\<lambda>c. c \<noteq> [] \<and> c \<noteq> ''.'') (split_slash s)"

definition pjoin :: "path \<Rightarrow> string \<Rightarrow> path" where
  "pjoin p s = (if str_startswith s ''/'' then parts s else p @ parts s)"

text \<open>\<^verbatim>\<open>PurePath.name\<close>: the last component, empty for the root.\<close>

definition path_name :: "path \<Rightarrow> string" where
  "path_name p = (if p = [] then [] else last p)"

text \<open>
  A file holds bytes, or an archive written by \<^verbatim>\<open>zipfile\<close>, kept as the list of its
  entries (name inside the archive, content) instead of its bytes. The file system is a
  list of nodes keyed by their canonical paths, in the order a directory scan reports
  them; the root directory is always there. There are no symbolic links, no permissions
  and no resource limits.
\<close>

datatype content = Bytes string | Zip "(path \<times> content) list"

datatype node = Dir | File content

type_synonym fs = "(path \<times> node) list"

definition node_at :: "fs \<Rightarrow> path \<Rightarrow> node option" where
  "node_at fs q = (if q = [] then Some Dir else map_of fs q)"

text \<open>
  Path resolution as the kernel does it: component by component from the root, each
  step taken from a directory that exists, \<^verbatim>\<open>..\<close> going up.
\<close>

fun walk_to :: "fs \<Rightarrow> path \<Rightarrow> string list \<Rightarrow> exn + path" where
  "walk_to fs cur [] = Inr cur"
| "walk_to fs cur (c # cs) =
     (case node_at fs cur of
        None \<Rightarrow> Inl FileNotFoundError
      | Some (File x) \<Rightarrow> Inl NotADirectoryError
      | Some Dir \<Rightarrow> walk_to fs (if c = ''..'' then butlast cur else cur @ [c]) cs)"

definition resolve :: "fs \<Rightarrow> path \<Rightarrow> exn + path" where
  "resolve fs p = walk_to fs [] p"

text \<open>\<^verbatim>\<open>os.stat\<close>: where the path leads and what is there.\<close>

definition stat :: "fs \<Rightarrow> path \<Rightarrow> exn + (path \<times> node)" where
  "stat fs p =
     (case resolve fs p of
        Inl e \<Rightarrow> Inl e
      | Inr q \<Rightarrow> (case node_at fs q of None \<Rightarrow> Inl FileNotFoundError | Some n \<Rightarrow> Inr (q, n)))"

text \<open>\<^verbatim>\<open>Path.exists()\<close> and \<^verbatim>\<open>os.path.isdir\<close>: a failed \<^verbatim>\<open>stat\<close> is \<^verbatim>\<open>False\<close>.\<close>

definition path_exists :: "fs \<Rightarrow> path \<Rightarrow> bool" where
  "path_exists fs p = (case stat fs p of Inl e \<Rightarrow> False | Inr r \<Rightarrow> True)"

definition path_isdir :: "fs \<Rightarrow> path \<Rightarrow> bool" where
  "path_isdir fs p = (case stat fs p of Inr (q, Dir) \<Rightarrow> True | _ \<Rightarrow> False)"

text \<open>Opening a file for reading, and reading all of it.\<close>

definition read_file :: "fs \<Rightarrow> path \<Rightarrow> exn + content" where
  "read_file fs p =
     (case stat fs p of
        Inl e \<Rightarrow> Inl e
      | Inr (q, Dir) \<Rightarrow> Inl IsADirectoryError
      | Inr (q, File c) \<Rightarrow> Inr c)"

text \<open>
  Opening a file for writing creates it empty, or empties it, in a directory that
  exists; the result is where the file is, and the new file system. Writing through the
  open file then sets its content.
\<close>

definition fd_write :: "fs \<Rightarrow> path \<Rightarrow> content \<Rightarrow> fs" where
  "fd_write fs q c = AList.update q (File c) fs"

definition open_write :: "fs \<Rightarrow> path \<Rightarrow> exn + (path \<times> fs)" where
  "open_write fs p =
     (case resolve fs p of
        Inl e \<Rightarrow> Inl e
      | Inr q \<Rightarrow>
          (if node_at fs q = Some Dir then Inl IsADirectoryError
           else if node_at fs (butlast q) \<noteq> Some Dir then Inl FileNotFoundError
           else Inr (q, fd_write fs q (Bytes []))))"

definition write_file :: "fs \<Rightarrow> path \<Rightarrow> content \<Rightarrow> exn + fs" where
  "write_file fs p c =
     (case open_write fs p of Inl e \<Rightarrow> Inl e | Inr (q, fs') \<Rightarrow> Inr (fd_write fs' q c))"

text \<open>\<^verbatim>\<open>os.mkdir\<close>.\<close>

definition os_mkdir :: "fs \<Rightarrow> path \<Rightarrow> exn + fs" where
  "os_mkdir fs p =
     (case resolve fs p of
        Inl e \<Rightarrow> Inl e
      | Inr q \<Rightarrow>
          (if node_at fs q \<noteq> None then Inl FileExistsError
           else if node_at fs (butlast q) \<noteq> Some Dir then Inl FileNotFoundError
           else Inr (fs @ [(q, Dir)])))"

text \<open>
  \<^verbatim>\<open>Path.mkdir(parents, exist_ok)\<close> tries \<^verbatim>\<open>os.mkdir\<close>. On \<open>FileNotFoundError\<close>, with
  \<^verbatim>\<open>parents\<close>, it makes the parent (\<^verbatim>\<open>parents=True, exist_ok=True\<close>) and then the
  directory without \<^verbatim>\<open>parents\<close>; any other error is raised again unless \<^verbatim>\<open>exist_ok\<close>
  is set and the path is a directory.
\<close>

definition mkdir_single :: "bool \<Rightarrow> fs \<Rightarrow> path \<Rightarrow> exn + fs" where
  "mkdir_single exist_ok fs p =
     (case os_mkdir fs p of
        Inr fs' \<Rightarrow> Inr fs'
      | Inl e \<Rightarrow>
          (if e \<noteq> FileNotFoundError \<and> exist_ok \<and> path_isdir fs p then Inr fs else Inl e))"

function mkdir_parents :: "bool \<Rightarrow> fs \<Rightarrow> path \<Rightarrow> exn + fs" where
  "mkdir_parents exist_ok fs p =
     (case os_mkdir fs p of
        Inr fs' \<Rightarrow> Inr fs'
      | Inl e \<Rightarrow>
          (if e = FileNotFoundError then
             (if p = [] then Inl e
              else (case mkdir_parents True fs (butlast p) of
                      Inl e' \<Rightarrow> Inl e'
                    | Inr fs' \<Rightarrow> mkdir_single exist_ok fs' p))
           else if exist_ok \<and> path_isdir fs p then Inr fs
           else Inl e))"
  by pat_completeness auto
termination
  by (relation "measure (\<lambda>(exist_ok, fs, p). length p)") auto

declare mkdir_parents.simps [simp del]

text \<open>
  \<^verbatim>\<open>shutil.rmtree\<close>: the directory and everything below it go; a path that is missing
  or is no directory raises.
\<close>

definition rmtree :: "fs \<Rightarrow> path \<Rightarrow> exn + fs" where
  "rmtree fs p =
     (case stat fs p of
        Inl e \<Rightarrow> Inl e
      | Inr (q, File c) \<Rightarrow> Inl NotADirectoryError
      | Inr (q, Dir) \<Rightarrow> Inr (filter (\<lambda>(k, n). \<not> prefix q k) fs))"

text \<open>
  \<^verbatim>\<open>shutil.copy(src, dst)\<close>: a \<^verbatim>\<open>dst\<close> that is a directory stands for the file of the
  source's base name in it; copying a file onto itself raises \<open>SameFileError\<close>; then the
  source is opened for reading and the destination for writing.
\<close>

definition shutil_copy :: "fs \<Rightarrow> path \<Rightarrow> path \<Rightarrow> exn + fs" where
  "shutil_copy fs src dst =
     (let dst' = (if path_isdir fs dst then pjoin dst (path_name src) else dst)
      in case (stat fs src, stat fs dst') of
           (Inr (qs, ns), Inr (qd, nd)) \<Rightarrow>
             (if qs = qd then Inl SameFileError
              else (case read_file fs src of
                      Inl e \<Rightarrow> Inl e
                    | Inr c \<Rightarrow> write_file fs dst' c))
         | _ \<Rightarrow>
             (case read_file fs src of
                Inl e \<Rightarrow> Inl e
              | Inr c \<Rightarrow> write_file fs dst' c))"

text \<open>
  The files \<^verbatim>\<open>os.walk(top)\<close> reports, each with its path relative to \<^verbatim>\<open>top\<close> and its
  content; nothing when \<^verbatim>\<open>top\<close> is no directory (\<^verbatim>\<open>os.walk\<close> swallows the error).
\<close>

fun files_under :: "path \<Rightarrow> fs \<Rightarrow> (path \<times> content) list" where
  "files_under q [] = []"
| "files_under q ((k, n) # rest) =
     (case n of
        Dir \<Rightarrow> files_under q rest
      | File c \<Rightarrow>
          (if strict_prefix q k then (drop (length q) k, c) # files_under q rest
           else files_under q rest))"

definition walk_files :: "fs \<Rightarrow> path \<Rightarrow> (path \<times> content) list" where
  "walk_files fs p = (case stat fs p of Inr (q, Dir) \<Rightarrow> files_under q fs | _ \<Rightarrow> [])"

text \<open>
  A file name is not empty, is neither \<^verbatim>\<open>.\<close> nor \<^verbatim>\<open>..\<close>, and has no \<^verbatim>\<open>/\<close> in it. A file
  system is well formed when no path is listed twice and every node has a path of file
  names and lies in a directory.
\<close>

definition proper_name :: "string \<Rightarrow> bool" where
  "proper_name c \<longleftrightarrow> c \<noteq> [] \<and> c \<noteq> ''.'' \<and> c \<noteq> ''..'' \<and> CHR ''/'' \<notin> set c"

definition wf_fs :: "fs \<Rightarrow> bool" where
  "wf_fs fs \<longleftrightarrow>
     distinct (map fst fs) \<and>
     list_all (\<lambda>(k, n). k \<noteq> [] \<and> list_all proper_name k \<and> node_at fs (butlast k) = Some Dir)
       fs"

subsection \<open>The environment of a run\<close>

text \<open>
  What a run reads besides the files: the working directory (\<^verbatim>\<open>PROJECT_ROOT\<close>), the XML
  parser (\<open>None\<close> for text that is not well formed), what \<^verbatim>\<open>git\<close> answers, and the
  clock.
\<close>

record datetime =
  year :: nat
  month :: nat
  day :: nat
  hour :: nat
  minute :: nat
  second :: nat

record world =
  project_root :: path
  et_parse :: "string \<Rightarrow> element option"
  git_remote :: completed_process
  now :: datetime

text \<open>
  The working directory of a run is a directory that exists, named by its canonical
  path.
\<close>

definition wf_env :: "world \<Rightarrow> fs \<Rightarrow> bool" where
  "wf_env w fs \<longleftrightarrow>
     wf_fs fs \<and> list_all proper_name (project_root w)
     \<and> node_at fs (project_root w) = Some Dir"

definition PROJECT_NAME :: "world \<Rightarrow> string" where
  "PROJECT_NAME w = path_name (project_root w)"

definition DLL_SOURCE_FOLDER :: path where
  "DLL_SOURCE_FOLDER = [''bin'', ''Debug'', ''net472'']"

text \<open>
  \<^verbatim>\<open>strftime("%Y%m%d%H%M%S")\<close>. The C library writes the year in decimal as it is
  (\<^verbatim>\<open>999\<close> for the year 999) and pads the other five fields with a zero to two
  digits.
\<close>

definition digit :: "nat \<Rightarrow> char" where
  "digit k = ''0123456789'' ! (k mod 10)"

fun decimal :: "nat \<Rightarrow> string" where
  "decimal n = (if n < 10 then [digit n] else decimal (n div 10) @ [digit n])"

declare decimal.simps [simp del]

definition digits2 :: "nat \<Rightarrow> string" where
  "digits2 n = (if n < 10 then CHR ''0'' # decimal n else decimal n)"

definition strftime :: "datetime \<Rightarrow> string" where
  "strftime t =
     decimal (year t) @ digits2 (month t) @ digits2 (day t)
     @ digits2 (hour t) @ digits2 (minute t) @ digits2 (second t)"

subsection \<open>\<^verbatim>\<open>CsprojGetter\<close>\<close>

record csproj_getter =
  csproj_root :: "element option"

text \<open>
  \<^verbatim>\<open>load_csproj\<close> parses the file on the first call and keeps the root. A file that
  cannot be read, and text the parser refuses, end the process with \<^verbatim>\<open>sys.exit(1)\<close>.
\<close>

definition load_csproj ::
  "world \<Rightarrow> fs \<Rightarrow> csproj_getter \<Rightarrow> path \<Rightarrow> abort + (element \<times> csproj_getter)" where
  "load_csproj w fs self csproj_path =
     (case csproj_root self of
        Some root \<Rightarrow> Inr (root, self)
      | None \<Rightarrow>
          (case read_file fs csproj_path of
             Inl e \<Rightarrow> Inl (SysExit 1)
           | Inr (Zip entries) \<Rightarrow> Inl (SysExit 1)
           | Inr (Bytes s) \<Rightarrow>
               (case et_parse w s of
                  None \<Rightarrow> Inl (SysExit 1)
                | Some root \<Rightarrow> Inr (root, self\<lparr>csproj_root := Some root\<rparr>))))"

text \<open>\<^verbatim>\<open>PROJECT_ROOT / f"{PROJECT_NAME}.csproj"\<close>.\<close>

definition csproj_path :: "world \<Rightarrow> path" where
  "csproj_path w = pjoin (project_root w) (PROJECT_NAME w @ ''.csproj'')"

definition retreive_csproj_element ::
  "world \<Rightarrow> fs \<Rightarrow> csproj_getter \<Rightarrow> string \<times> string \<Rightarrow> abort + (string \<times> csproj_getter)" where
  "retreive_csproj_element w fs self xml_path =
     (case load_csproj w fs self (csproj_path w) of
        Inl a \<Rightarrow> Inl a
      | Inr (root, self') \<Rightarrow>
          (case find root xml_path of
             None \<Rightarrow> Inl (SysExit 1)
           | Some dll_name_element \<Rightarrow>
               (case elem_text dll_name_element of
                  None \<Rightarrow> Inl (SysExit 1)
                | Some t \<Rightarrow> if t \<noteq> [] then Inr (t, self') else Inl (SysExit 1))))"

text \<open>
  A field is missing when \<^verbatim>\<open>find\<close> selects no element for its path, or selects one
  whose text is \<^verbatim>\<open>None\<close> or empty.
\<close>

definition field_missing :: "element \<Rightarrow> string \<times> string \<Rightarrow> bool" where
  "field_missing root xml_path \<longleftrightarrow>
     (case find root xml_path of
        None \<Rightarrow> True
      | Some e \<Rightarrow> (case elem_text e of None \<Rightarrow> True | Some t \<Rightarrow> t = []))"

definition get_dll_name :: "world \<Rightarrow> fs \<Rightarrow> csproj_getter \<Rightarrow> abort + (string \<times> csproj_getter)" where
  "get_dll_name w fs self =
     (case retreive_csproj_element w fs self (''PropertyGroup'', ''AssemblyName'') of
        Inl a \<Rightarrow> Inl a
      | Inr (t, self') \<Rightarrow> Inr (t @ ''.dll'', self'))"

definition get_dll_version :: "world \<Rightarrow> fs \<Rightarrow> csproj_getter \<Rightarrow> abort + (string \<times> csproj_getter)" where
  "get_dll_version w fs self =
     retreive_csproj_element w fs self (''PropertyGroup'', ''Version'')"

definition get_mod_name :: "world \<Rightarrow> fs \<Rightarrow> csproj_getter \<Rightarrow> abort + (string \<times> csproj_getter)" where
  "get_mod_name w fs self =
     retreive_csproj_element w fs self (''PropertyGroup'', ''Product'')"

definition get_dll_path :: "world \<Rightarrow> fs \<Rightarrow> csproj_getter \<Rightarrow> abort + (path \<times> csproj_getter)" where
  "get_dll_path w fs self =
     (case get_dll_name w fs self of
        Inl a \<Rightarrow> Inl a
      | Inr (dll_name, self') \<Rightarrow>
          Inr (pjoin (project_root w @ DLL_SOURCE_FOLDER) dll_name, self'))"

subsection \<open>\<^verbatim>\<open>FileSpec\<close> and \<^verbatim>\<open>FilePackager\<close>\<close>

record file_spec =
  path :: path
  required :: bool
  rename_to :: "string option"

definition DEFAULT_FILESPEC :: "world \<Rightarrow> file_spec list" where
  "DEFAULT_FILESPEC w =
     [\<lparr>path = pjoin (project_root w) ''manifest.json'', required = True, rename_to = None\<rparr>,
      \<lparr>path = pjoin (pjoin (project_root w) ''img'') ''icon.png'', required = True,
        rename_to = Some ''icon.png''\<rparr>,
      \<lparr>path = pjoin (project_root w) ''README.md'', required = True, rename_to = None\<rparr>,
      \<lparr>path = pjoin (project_root w) ''CHANGELOG.md'', required = False, rename_to = None\<rparr>]"

record file_packager =
  dll_name :: string
  dll_source_path :: path
  dist_dir :: path
  temp_dir :: path
  zip_file_name :: path

text \<open>
  What \<^verbatim>\<open>FilePackager.__init__\<close> computes from the three fields of the project file
  and the clock.
\<close>

definition make_packager :: "world \<Rightarrow> string \<Rightarrow> string \<Rightarrow> string \<Rightarrow> file_packager" where
  "make_packager w assembly_name mod_name dll_version =
     \<lparr>dll_name = assembly_name @ ''.dll'',
      dll_source_path = pjoin (project_root w @ DLL_SOURCE_FOLDER) (assembly_name @ ''.dll''),
      dist_dir = pjoin (project_root w) ''dist'',
      temp_dir = pjoin (pjoin (project_root w) ''dist'') (''temp_package_'' @ strftime (now w)),
      zip_file_name =
        pjoin (pjoin (project_root w) ''dist'') (mod_name @ ''-'' @ dll_version @ ''.zip'')\<rparr>"

text \<open>
  \<^verbatim>\<open>FilePackager.__init__\<close>: one \<^verbatim>\<open>CsprojGetter\<close>, asked for the DLL name, the DLL path,
  the mod name and the version, in this order.
\<close>

definition new_file_packager :: "world \<Rightarrow> fs \<Rightarrow> abort + file_packager" where
  "new_file_packager w fs =
     (case get_dll_name w fs \<lparr>csproj_root = None\<rparr> of
        Inl a \<Rightarrow> Inl a
      | Inr (name, c1) \<Rightarrow>
          (case get_dll_path w fs c1 of
             Inl a \<Rightarrow> Inl a
           | Inr (source_path, c2) \<Rightarrow>
               (case get_mod_name w fs c2 of
                  Inl a \<Rightarrow> Inl a
                | Inr (mod_name, c3) \<Rightarrow>
                    (case get_dll_version w fs c3 of
                       Inl a \<Rightarrow> Inl a
                     | Inr (dll_version, c4) \<Rightarrow>
                         Inr \<lparr>dll_name = name,
                              dll_source_path = source_path,
                              dist_dir = pjoin (project_root w) ''dist'',
                              temp_dir = pjoin (pjoin (project_root w) ''dist'')
                                (''temp_package_'' @ strftime (now w)),
                              zip_file_name = pjoin (pjoin (project_root w) ''dist'')
                                (mod_name @ ''-'' @ dll_version @ ''.zip'')\<rparr>))))"

text \<open>
  \<^verbatim>\<open>prepare_file_spec\<close>. The three file system calls are outside any \<^verbatim>\<open>try\<close>, so an
  error of theirs reaches the top level.
\<close>

definition prepare_file_spec ::
  "world \<Rightarrow> file_packager \<Rightarrow> fs \<Rightarrow> (abort + file_spec list) \<times> fs" where
  "prepare_file_spec w self fs =
     (case (if \<not> path_exists fs (dist_dir self) then mkdir_parents False fs (dist_dir self)
            else Inr fs) of
        Inl e \<Rightarrow> (Inl (Uncaught e), fs)
      | Inr fs1 \<Rightarrow>
          (case (if path_exists fs1 (temp_dir self) then rmtree fs1 (temp_dir self)
                 else Inr fs1) of
             Inl e \<Rightarrow> (Inl (Uncaught e), fs1)
           | Inr fs2 \<Rightarrow>
               (case mkdir_parents False fs2 (temp_dir self) of
                  Inl e \<Rightarrow> (Inl (Uncaught e), fs2)
                | Inr fs3 \<Rightarrow>
                    (Inr (DEFAULT_FILESPEC w
                          @ [\<lparr>path = dll_source_path self, required = True,
                               rename_to = Some (dll_name self)\<rparr>]),
                     fs3))))"

text \<open>
  How a \<^verbatim>\<open>try\<close> body is left: by an exception of class \<^verbatim>\<open>Exception\<close>, or by
  \<^verbatim>\<open>SystemExit\<close>, which \<^verbatim>\<open>except Exception\<close> does not catch.
\<close>

datatype raised = Exc exn | Exit int

text \<open>
  The body of the \<^verbatim>\<open>try\<close> in \<^verbatim>\<open>copy_files\<close>. \<^verbatim>\<open>PROJECT_ROOT / file_spec.path\<close> is
  \<^verbatim>\<open>file_spec.path\<close>, an absolute path; an empty \<^verbatim>\<open>rename_to\<close> counts as none.
\<close>

definition destination_name :: "file_spec \<Rightarrow> string" where
  "destination_name file_spec =
     (case rename_to file_spec of
        None \<Rightarrow> path_name (path file_spec)
      | Some r \<Rightarrow> if r \<noteq> [] then r else path_name (path file_spec))"

fun copy_loop :: "file_packager \<Rightarrow> file_spec list \<Rightarrow> fs \<Rightarrow> raised option \<times> fs" where
  "copy_loop self [] fs = (None, fs)"
| "copy_loop self (file_spec # file_specs) fs =
     (if path_exists fs (path file_spec) then
        (case shutil_copy fs (path file_spec)
                (pjoin (temp_dir self) (destination_name file_spec)) of
           Inl e \<Rightarrow> (Some (Exc e), fs)
         | Inr fs' \<Rightarrow> copy_loop self file_specs fs')
      else if required file_spec then
        (case rmtree fs (temp_dir self) of
           Inl e \<Rightarrow> (Some (Exc e), fs)
         | Inr fs' \<Rightarrow> (Some (Exit 1), fs'))
      else copy_loop self file_specs fs)"

definition copy_files :: "file_packager \<Rightarrow> file_spec list \<Rightarrow> fs \<Rightarrow> (abort + unit) \<times> fs" where
  "copy_files self file_specs fs =
     (case copy_loop self file_specs fs of
        (None, fs') \<Rightarrow> (Inr (), fs')
      | (Some (Exit n), fs') \<Rightarrow> (Inl (SysExit n), fs')
      | (Some (Exc e), fs') \<Rightarrow>
          (case rmtree fs' (temp_dir self) of
             Inl e' \<Rightarrow> (Inl (Uncaught e'), fs')
           | Inr fs'' \<Rightarrow> (Inl (SysExit 1), fs'')))"

text \<open>
  \<^verbatim>\<open>zip_files\<close>. Opening the archive creates the file; every file the walk of the
  staging directory reports is written under its path relative to that directory;
  closing the archive sets the file's content. The \<^verbatim>\<open>finally\<close> clause removes the
  staging directory whether the body raised or not, and an error of the removal itself
  reaches the top level.
\<close>

definition zip_files :: "file_packager \<Rightarrow> fs \<Rightarrow> (abort + unit) \<times> fs" where
  "zip_files self fs =
     (case (case open_write fs (zip_file_name self) of
              Inl e \<Rightarrow> (Some e, fs)
            | Inr (q, fs1) \<Rightarrow> (None, fd_write fs1 q (Zip (walk_files fs1 (temp_dir self))))) of
        (body, fs2) \<Rightarrow>
          (case rmtree fs2 (temp_dir self) of
             Inl e' \<Rightarrow> (Inl (Uncaught e'), fs2)
           | Inr fs3 \<Rightarrow>
               (case body of
                  None \<Rightarrow> (Inr (), fs3)
                | Some e \<Rightarrow> (Inl (SysExit 1), fs3))))"

definition process :: "world \<Rightarrow> file_packager \<Rightarrow> fs \<Rightarrow> (abort + unit) \<times> fs" where
  "process w self fs =
     (case prepare_file_spec w self fs of
        (Inl a, fs1) \<Rightarrow> (Inl a, fs1)
      | (Inr file_spec, fs1) \<Rightarrow>
          (case copy_files self file_spec fs1 of
             (Inl a, fs2) \<Rightarrow> (Inl a, fs2)
           | (Inr u, fs2) \<Rightarrow> zip_files self fs2))"

subsection \<open>\<^verbatim>\<open>get_description\<close>\<close>

text \<open>
  The README is opened outside any \<^verbatim>\<open>try\<close>. A file that holds an archive is taken
  not to decode as UTF-8.
\<close>

definition get_description :: "world \<Rightarrow> fs \<Rightarrow> abort + string" where
  "get_description w fs =
     (if path_exists fs (pjoin (project_root w) ''README.md'') then
        (case read_file fs (pjoin (project_root w) ''README.md'') of
           Inl e \<Rightarrow> Inl (Uncaught e)
         | Inr (Zip entries) \<Rightarrow> Inl (Uncaught UnicodeDecodeError)
         | Inr (Bytes s) \<Rightarrow> Inr (description_of s))
      else Inr [])"

subsection \<open>The manifest and \<^verbatim>\<open>json.dump\<close>\<close>

text \<open>
  \<^verbatim>\<open>manifest_dict: dict[str, str | list[str]]\<close>, kept as the list of its items in the
  order the keys were first assigned.
\<close>

datatype json_value = Str string | StrList "string list"

type_synonym manifest = "(string \<times> json_value) list"

text \<open>
  \<^verbatim>\<open>json\<close> with \<^verbatim>\<open>ensure_ascii=True\<close> writes the characters from the space to \<^verbatim>\<open>~\<close> as
  they are, but for the quote and the backslash; it has short escapes for backspace,
  tab, newline, form feed and carriage return, and writes any other character as
  \<^verbatim>\<open>\u\<close> and four lowercase hexadecimal digits.
\<close>

definition hex_digit :: "nat \<Rightarrow> char" where
  "hex_digit k = ''0123456789abcdef'' ! (k mod 16)"

definition escape_char :: "char \<Rightarrow> string" where
  "escape_char c =
     (if c = CHR 0x22 then [CHR 0x5C, CHR 0x22]
      else if c = CHR 0x5C then [CHR 0x5C, CHR 0x5C]
      else if c = CHR 0x08 then [CHR 0x5C, CHR ''b'']
      else if c = CHR 0x09 then [CHR 0x5C, CHR ''t'']
      else if c = CHR 0x0A then [CHR 0x5C, CHR ''n'']
      else if c = CHR 0x0C then [CHR 0x5C, CHR ''f'']
      else if c = CHR 0x0D then [CHR 0x5C, CHR ''r'']
      else if 32 \<le> (of_char c :: nat) \<and> (of_char c :: nat) \<le> 126 then [c]
      else [CHR 0x5C, CHR ''u'', CHR ''0'', CHR ''0'', hex_digit (of_char c div 16),
            hex_digit (of_char c mod 16)])"

definition encode_string :: "string \<Rightarrow> string" where
  "encode_string s = CHR 0x22 # concat (map escape_char s) @ [CHR 0x22]"

text \<open>
  \<^verbatim>\<open>json.dumps(d, indent=4, sort_keys=True)\<close>: the items sorted by key, one per line
  behind four spaces, a list with one element per line behind eight; the separators are
  \<^verbatim>\<open>,\<close> and \<^verbatim>\<open>: \<close>; an empty list is \<^verbatim>\<open>[]\<close> and an empty dictionary \<^verbatim>\<open>{}\<close>.
\<close>

definition newline_indent :: "nat \<Rightarrow> string" where
  "newline_indent level = CHR 0x0A # replicate (4 * level) CHR '' ''"

definition encode_value :: "json_value \<Rightarrow> string" where
  "encode_value v =
     (case v of
        Str s \<Rightarrow> encode_string s
      | StrList xs \<Rightarrow>
          (if xs = [] then ''[]''
           else ''['' @ newline_indent 2
                @ str_join ('','' @ newline_indent 2) (map encode_string xs)
                @ newline_indent 1 @ '']''))"

definition encode_item :: "string \<times> json_value \<Rightarrow> string" where
  "encode_item kv = encode_string (fst kv) @ '': '' @ encode_value (snd kv)"

definition json_dumps :: "manifest \<Rightarrow> string" where
  "json_dumps d =
     (if d = [] then ''{}''
      else ''{'' @ newline_indent 1
           @ str_join ('','' @ newline_indent 1) (map encode_item (sort_key fst d))
           @ newline_indent 0 @ ''}'')"

text \<open>
  Reading JSON back, as \<^verbatim>\<open>json.loads\<close> does for an object whose values are strings or
  lists of strings: a lexer for the structural characters, whitespace and string
  literals with every escape of JSON, and an automaton over the tokens. The result lists
  the items in the order of the text. An escape \<^verbatim>\<open>\u\<close> of a code point from 256 on is
  outside the model and refused.
\<close>

datatype token = LBrace | RBrace | LBracket | RBracket | Colon | Comma | TString string

definition json_ws :: "char \<Rightarrow> bool" where
  "json_ws c \<longleftrightarrow> c = CHR '' '' \<or> c = CHR 0x09 \<or> c = CHR 0x0A \<or> c = CHR 0x0D"

definition unhex :: "char \<Rightarrow> nat option" where
  "unhex c =
     (let n = (of_char c :: nat)
      in if 48 \<le> n \<and> n \<le> 57 then Some (n - 48)
         else if 97 \<le> n \<and> n \<le> 102 then Some (n - 87)
         else if 65 \<le> n \<and> n \<le> 70 then Some (n - 55)
         else None)"

definition unescape :: "char \<Rightarrow> char option" where
  "unescape e =
     (if e = CHR 0x22 then Some (CHR 0x22)
      else if e = CHR 0x5C then Some (CHR 0x5C)
      else if e = CHR ''/'' then Some (CHR ''/'')
      else if e = CHR ''b'' then Some (CHR 0x08)
      else if e = CHR ''f'' then Some (CHR 0x0C)
      else if e = CHR ''n'' then Some (CHR 0x0A)
      else if e = CHR ''r'' then Some (CHR 0x0D)
      else if e = CHR ''t'' then Some (CHR 0x09)
      else None)"

definition unicode_escape :: "char \<Rightarrow> char \<Rightarrow> char \<Rightarrow> char \<Rightarrow> char option" where
  "unicode_escape h1 h2 h3 h4 =
     (case (unhex h1, unhex h2, unhex h3, unhex h4) of
        (Some a, Some b, Some c, Some d) \<Rightarrow>
          (if a = 0 \<and> b = 0 then Some (char_of (16 * c + d)) else None)
      | _ \<Rightarrow> None)"

fun lex :: "string \<Rightarrow> token list option"
  and lex_string :: "string \<Rightarrow> string \<Rightarrow> token list option" where
  "lex [] = Some []"
| "lex (c # cs) =
     (if json_ws c then lex cs
      else if c = CHR ''{'' then map_option (Cons LBrace) (lex cs)
      else if c = CHR ''}'' then map_option (Cons RBrace) (lex cs)
      else if c = CHR ''['' then map_option (Cons LBracket) (lex cs)
      else if c = CHR '']'' then map_option (Cons RBracket) (lex cs)
      else if c = CHR '':'' then map_option (Cons Colon) (lex cs)
      else if c = CHR '','' then map_option (Cons Comma) (lex cs)
      else if c = CHR 0x22 then lex_string [] cs
      else None)"
| "lex_string acc [] = None"
| "lex_string acc (c # cs) =
     (if c = CHR 0x22 then map_option (Cons (TString acc)) (lex cs)
      else if c = CHR 0x5C then
        (case cs of
           [] \<Rightarrow> None
         | e # r \<Rightarrow>
             (if e = CHR ''u'' then
                (case r of
                   h1 # h2 # h3 # h4 # r' \<Rightarrow>
                     (case unicode_escape h1 h2 h3 h4 of
                        None \<Rightarrow> None
                      | Some x \<Rightarrow> lex_string (acc @ [x]) r')
                 | _ \<Rightarrow> None)
              else (case unescape e of
                      None \<Rightarrow> None
                    | Some x \<Rightarrow> lex_string (acc @ [x]) r)))
      else if (of_char c :: nat) < 32 then None
      else lex_string (acc @ [c]) cs)"

datatype pstate =
  Start | FirstKey | NextKey | AfterKey string | BeforeValue string
  | FirstElem string | AfterElem string "string list" | NextElem string "string list"
  | AfterValue | Finished

fun parse_step :: "pstate \<times> manifest \<Rightarrow> token \<Rightarrow> (pstate \<times> manifest) option" where
  "parse_step (Start, acc) LBrace = Some (FirstKey, acc)"
| "parse_step (FirstKey, acc) RBrace = Some (Finished, acc)"
| "parse_step (FirstKey, acc) (TString k) = Some (AfterKey k, acc)"
| "parse_step (NextKey, acc) (TString k) = Some (AfterKey k, acc)"
| "parse_step (AfterKey k, acc) Colon = Some (BeforeValue k, acc)"
| "parse_step (BeforeValue k, acc) (TString s) = Some (AfterValue, acc @ [(k, Str s)])"
| "parse_step (BeforeValue k, acc) LBracket = Some (FirstElem k, acc)"
| "parse_step (FirstElem k, acc) RBracket = Some (AfterValue, acc @ [(k, StrList [])])"
| "parse_step (FirstElem k, acc) (TString s) = Some (AfterElem k [s], acc)"
| "parse_step (AfterElem k xs, acc) Comma = Some (NextElem k xs, acc)"
| "parse_step (AfterElem k xs, acc) RBracket = Some (AfterValue, acc @ [(k, StrList xs)])"
| "parse_step (NextElem k xs, acc) (TString s) = Some (AfterElem k (xs @ [s]), acc)"
| "parse_step (AfterValue, acc) Comma = Some (NextKey, acc)"
| "parse_step (AfterValue, acc) RBrace = Some (Finished, acc)"
| "parse_step (st, acc) t = None"

fun parse_tokens :: "pstate \<times> manifest \<Rightarrow> token list \<Rightarrow> manifest option" where
  "parse_tokens (st, acc) [] = (if st = Finished then Some acc else None)"
| "parse_tokens (st, acc) (t # ts) =
     (case parse_step (st, acc) t of None \<Rightarrow> None | Some s' \<Rightarrow> parse_tokens s' ts)"

definition json_loads :: "string \<Rightarrow> manifest option" where
  "json_loads s = (case lex s of None \<Rightarrow> None | Some ts \<Rightarrow> parse_tokens (Start, []) ts)"

text \<open>The tokens of the text that \<^verbatim>\<open>json.dumps\<close> writes, item by item.\<close>

definition value_tokens :: "json_value \<Rightarrow> token list" where
  "value_tokens v =
     (case v of
        Str s \<Rightarrow> [TString s]
      | StrList xs \<Rightarrow>
          (case xs of
             [] \<Rightarrow> [LBracket, RBracket]
           | x # ys \<Rightarrow>
               LBracket # TString x # concat (map (\<lambda>y. [Comma, TString y]) ys) @ [RBracket]))"

definition item_tokens :: "string \<times> json_value \<Rightarrow> token list" where
  "item_tokens kv = TString (fst kv) # Colon # value_tokens (snd kv)"

definition manifest_tokens :: "manifest \<Rightarrow> token list" where
  "manifest_tokens d =
     (case d of
        [] \<Rightarrow> [LBrace, RBrace]
      | kv # kvs \<Rightarrow>
          LBrace # item_tokens kv @ concat (map (\<lambda>kv. Comma # item_tokens kv) kvs) @ [RBrace])"

subsection \<open>\<^verbatim>\<open>build_manifest\<close> and \<^verbatim>\<open>main\<close>\<close>

definition manifest_dict :: "string \<Rightarrow> string \<Rightarrow> string \<Rightarrow> string \<Rightarrow> manifest" where
  "manifest_dict name description version_number website_url =
     [(''name'', Str name),
      (''description'', Str description),
      (''version_number'', Str version_number),
      (''website_url'', Str website_url),
      (''dependencies'', StrList [''BepInEx-BepInExPack-5.4.2100''])]"

text \<open>
  \<^verbatim>\<open>build_manifest\<close> asks one \<^verbatim>\<open>CsprojGetter\<close> for the mod name, reads the description,
  asks for the version, asks \<^verbatim>\<open>git\<close>, and writes \<^verbatim>\<open>manifest.json\<close> in the working
  directory. The file is opened outside any \<^verbatim>\<open>try\<close>.
\<close>

definition build_manifest :: "world \<Rightarrow> fs \<Rightarrow> (abort + unit) \<times> fs" where
  "build_manifest w fs =
     (case get_mod_name w fs \<lparr>csproj_root = None\<rparr> of
        Inl a \<Rightarrow> (Inl a, fs)
      | Inr (name, c1) \<Rightarrow>
          (case get_description w fs of
             Inl a \<Rightarrow> (Inl a, fs)
           | Inr description \<Rightarrow>
               (case get_dll_version w fs c1 of
                  Inl a \<Rightarrow> (Inl a, fs)
                | Inr (version_number, c2) \<Rightarrow>
                    (case get_github_url (git_remote w) of
                       Inl a \<Rightarrow> (Inl a, fs)
                     | Inr website_url \<Rightarrow>
                         (case write_file fs (pjoin (project_root w) ''manifest.json'')
                                 (Bytes (json_dumps
                                    (manifest_dict name description version_number
                                       website_url))) of
                            Inl e \<Rightarrow> (Inl (Uncaught e), fs)
                          | Inr fs' \<Rightarrow> (Inr (), fs'))))))"

definition main :: "world \<Rightarrow> fs \<Rightarrow> (abort + unit) \<times> fs" where
  "main w fs =
     (case build_manifest w fs of
        (Inl a, fs1) \<Rightarrow> (Inl a, fs1)
      | (Inr u, fs1) \<Rightarrow>
          (case new_file_packager w fs1 of
             Inl a \<Rightarrow> (Inl a, fs1)
           | Inr packager \<Rightarrow> process w packager fs1))"

subsection \<open>Invariants of the file system\<close>

text \<open>
  Three properties the operations keep: every node lies in a directory; every listed
  path consists of file names; and, for a directory \<open>t\<close>, whatever lies below \<open>t\<close> is a
  file directly in it.
\<close>

definition tree :: "fs \<Rightarrow> bool" where
  "tree fs \<longleftrightarrow> (\<forall>k. node_at fs k \<noteq> None \<longrightarrow> node_at fs (butlast k) = Some Dir)"

definition names_ok :: "fs \<Rightarrow> bool" where
  "names_ok fs \<longleftrightarrow> (\<forall>k \<in> fst ` set fs. list_all proper_name k)"

definition flat_below :: "path \<Rightarrow> fs \<Rightarrow> bool" where
  "flat_below t fs \<longleftrightarrow>
     (\<forall>k. strict_prefix t k \<and> node_at fs k \<noteq> None \<longrightarrow>
        (\<exists>c. node_at fs k = Some (File c)) \<and> butlast k = t)"

text \<open>
  The staging directory \<open>t\<close> in a file system: the three properties hold and \<open>t\<close> is a
  directory. A path as \<^verbatim>\<open>pathlib\<close> builds it consists of file names and \<^verbatim>\<open>..\<close>.
\<close>

definition staging :: "path \<Rightarrow> fs \<Rightarrow> bool" where
  "staging t fs \<longleftrightarrow> tree fs \<and> names_ok fs \<and> node_at fs t = Some Dir \<and> flat_below t fs"

definition path_ok :: "path \<Rightarrow> bool" where
  "path_ok p \<longleftrightarrow> (\<forall>c \<in> set p. c = ''..'' \<or> proper_name c)"

text \<open>
  What a file list stages from a file system: of each file of the list that is there,
  the node in the staging directory \<open>t\<close>, and the entry of the archive.
\<close>

definition staged_nodes :: "path \<Rightarrow> fs \<Rightarrow> file_spec list \<Rightarrow> fs" where
  "staged_nodes t fs specs =
     concat (map (\<lambda>s. case node_at fs (path s) of
                         Some (File c) \<Rightarrow> [(t @ [destination_name s], File c)]
                       | _ \<Rightarrow> []) specs)"

definition staged_entries :: "fs \<Rightarrow> file_spec list \<Rightarrow> (path \<times> content) list" where
  "staged_entries fs specs =
     concat (map (\<lambda>s. case node_at fs (path s) of
                         Some (File c) \<Rightarrow> [([destination_name s], c)]
                       | _ \<Rightarrow> []) specs)"

subsection \<open>A sample project\<close>

text \<open>
  A project to run the model on: seven project files as the parser returns them (a
  complete one; one whose fields are missing in the three possible ways; one whose
  fields have blanks around them; one with an empty assembly name in a first property
  group and the assembly name in a second one; one in the MSBuild namespace, as Visual
  Studio wrote project files before the SDK style; one whose assembly name leads out of
  the output directory; one whose assembly name leads into a directory named like a
  staging directory), and the files of a built mod.
\<close>

definition sample_csproj :: element where
  "sample_csproj =
     Element ''Project'' None
       [Element ''PropertyGroup'' None
          [Element ''TargetFramework'' (Some ''net472'') [],
           Element ''AssemblyName'' (Some ''LoadIntoLevel'') [],
           Element ''Product'' (Some ''Load Into Level'') [],
           Element ''Version'' (Some ''1.0.0'') []],
        Element ''ItemGroup'' None []]"

definition broken_csproj :: element where
  "broken_csproj =
     Element ''Project'' None
       [Element ''PropertyGroup'' None
          [Element ''AssemblyName'' None [],
           Element ''Product'' (Some []) []]]"

definition spaced_csproj :: element where
  "spaced_csproj =
     Element ''Project'' None
       [Element ''PropertyGroup'' None
          [Element ''AssemblyName'' (Some '' Load '') [],
           Element ''Product'' (Some '' Load Into Level '') [],
           Element ''Version'' (Some '' 1.0.0 '') []]]"

definition twice_csproj :: element where
  "twice_csproj =
     Element ''Project'' None
       [Element ''PropertyGroup'' None
          [Element ''AssemblyName'' None []],
        Element ''PropertyGroup'' None
          [Element ''AssemblyName'' (Some ''Later'') []]]"

definition namespaced_csproj :: element where
  "namespaced_csproj =
     Element ''{http://schemas.microsoft.com/developer/msbuild/2003}Project'' None
       [Element ''{http://schemas.microsoft.com/developer/msbuild/2003}PropertyGroup'' None
          [Element ''{http://schemas.microsoft.com/developer/msbuild/2003}AssemblyName''
             (Some ''LoadIntoLevel'') []]]"

definition escape_csproj :: element where
  "escape_csproj =
     Element ''Project'' None
       [Element ''PropertyGroup'' None
          [Element ''AssemblyName'' (Some ''../x'') [],
           Element ''Product'' (Some ''Load Into Level'') [],
           Element ''Version'' (Some ''1.0.0'') []]]"

definition stamped_csproj :: element where
  "stamped_csproj =
     Element ''Project'' None
       [Element ''PropertyGroup'' None
          [Element ''AssemblyName'' (Some ''../temp_package_20260102030406/x'') [],
           Element ''Product'' (Some ''Load Into Level'') [],
           Element ''Version'' (Some ''1.0.0'') []]]"

definition sample_parse :: "string \<Rightarrow> element option" where
  "sample_parse s =
     (if s = ''<Project/>'' then Some sample_csproj
      else if s = ''<Broken/>'' then Some broken_csproj
      else if s = ''<Spaced/>'' then Some spaced_csproj
      else if s = ''<Twice/>'' then Some twice_csproj
      else if s = ''<Namespaced/>'' then Some namespaced_csproj
      else if s = ''<Escape/>'' then Some escape_csproj
      else if s = ''<Stamped/>'' then Some stamped_csproj
      else None)"

definition sample_world :: world where
  "sample_world =
     \<lparr>project_root = [''work'', ''Mod''],
      et_parse = sample_parse,
      git_remote = Completed 0 ''git@github.com:org/repo.git\<newline>'' [],
      now = \<lparr>year = 2026, month = 1, day = 2, hour = 3, minute = 4, second = 5\<rparr>\<rparr>"

text \<open>The time one second after the time of the sample run.\<close>

definition sample_later :: datetime where
  "sample_later = \<lparr>year = 2026, month = 1, day = 2, hour = 3, minute = 4, second = 6\<rparr>"

definition sample_readme :: string where
  "sample_readme = ''# Mod\<newline>## Summary\<newline>Loads a level.\<newline>## Use\<newline>Press L.\<newline>''"

definition sample_fs :: "string \<Rightarrow> string \<Rightarrow> fs" where
  "sample_fs csproj dll =
     [([''work''], Dir),
      ([''work'', ''Mod''], Dir),
      ([''work'', ''Mod'', ''Mod.csproj''], File (Bytes csproj)),
      ([''work'', ''Mod'', ''README.md''], File (Bytes sample_readme)),
      ([''work'', ''Mod'', ''img''], Dir),
      ([''work'', ''Mod'', ''img'', ''icon.png''], File (Bytes ''PNG'')),
      ([''work'', ''Mod'', ''bin''], Dir),
      ([''work'', ''Mod'', ''bin'', ''Debug''], Dir),
      ([''work'', ''Mod'', ''bin'', ''Debug'', ''net472''], Dir),
      ([''work'', ''Mod'', ''bin'', ''Debug'', ''net472'', dll], File (Bytes ''MZ''))]"

text \<open>
  The same project with a manifest in place, its packager, the project without its icon,
  the project with a directory where its README should be, the project with a directory
  where the archive is to be written, and the project after a run of the packager.
\<close>

definition sample_manifest :: string where
  "sample_manifest =
     json_dumps (manifest_dict ''Load Into Level'' ''Loads a level.'' ''1.0.0''
       ''https://github.com/org/repo.git'')"

definition staged_fs :: fs where
  "staged_fs =
     sample_fs ''<Project/>'' ''LoadIntoLevel.dll''
     @ [([''work'', ''Mod'', ''manifest.json''], File (Bytes sample_manifest))]"

definition no_icon_fs :: fs where
  "no_icon_fs = filter (\<lambda>(k, n). k \<noteq> [''work'', ''Mod'', ''img'', ''icon.png'']) staged_fs"

definition readme_dir_fs :: fs where
  "readme_dir_fs =
     map (\<lambda>(k, n). if k = [''work'', ''Mod'', ''README.md''] then (k, Dir) else (k, n)) staged_fs"

definition zip_dir_fs :: fs where
  "zip_dir_fs =
     staged_fs
     @ [([''work'', ''Mod'', ''dist''], Dir),
        ([''work'', ''Mod'', ''dist'', ''Load Into Level-1.0.0.zip''], Dir)]"

text \<open>
  The project whose assembly name is \<^verbatim>\<open>../x\<close>, built: MSBuild has written the DLL to
  \<^verbatim>\<open>bin/Debug/net472/../x.dll\<close>.
\<close>

definition escape_fs :: fs where
  "escape_fs =
     [([''work''], Dir),
      ([''work'', ''Mod''], Dir),
      ([''work'', ''Mod'', ''Mod.csproj''], File (Bytes ''<Escape/>'')),
      ([''work'', ''Mod'', ''README.md''], File (Bytes sample_readme)),
      ([''work'', ''Mod'', ''img''], Dir),
      ([''work'', ''Mod'', ''img'', ''icon.png''], File (Bytes ''PNG'')),
      ([''work'', ''Mod'', ''bin''], Dir),
      ([''work'', ''Mod'', ''bin'', ''Debug''], Dir),
      ([''work'', ''Mod'', ''bin'', ''Debug'', ''net472''], Dir),
      ([''work'', ''Mod'', ''bin'', ''Debug'', ''x.dll''], File (Bytes ''MZ'')),
      ([''work'', ''Mod'', ''manifest.json''], File (Bytes sample_manifest))]"

definition escaped_fs :: fs where
  "escaped_fs =
     escape_fs
     @ [([''work'', ''Mod'', ''dist''], Dir),
        ([''work'', ''Mod'', ''dist'', ''x.dll''], File (Bytes ''MZ'')),
        ([''work'', ''Mod'', ''dist'', ''Load Into Level-1.0.0.zip''],
         File (Zip [([''manifest.json''], Bytes sample_manifest),
                    ([''icon.png''], Bytes ''PNG''),
                    ([''README.md''], Bytes sample_readme)]))]"

text \<open>The sample project with a changelog, before and after a run of the packager.\<close>

definition changelog_fs :: fs where
  "changelog_fs =
     staged_fs @ [([''work'', ''Mod'', ''CHANGELOG.md''], File (Bytes ''# 1.0.0\<newline>''))]"

definition changelog_packaged_fs :: fs where
  "changelog_packaged_fs =
     changelog_fs
     @ [([''work'', ''Mod'', ''dist''], Dir),
        ([''work'', ''Mod'', ''dist'', ''Load Into Level-1.0.0.zip''],
         File (Zip [([''manifest.json''], Bytes sample_manifest),
                    ([''icon.png''], Bytes ''PNG''),
                    ([''README.md''], Bytes sample_readme),
                    ([''CHANGELOG.md''], Bytes ''# 1.0.0\<newline>''),
                    ([''LoadIntoLevel.dll''], Bytes ''MZ'')]))]"

text \<open>
  The project whose assembly name is \<^verbatim>\<open>../temp_package_20260102030406/x\<close>, built, with a
  staging directory of that name left in \<^verbatim>\<open>dist\<close>; the same after a run at the sample
  time, and after a second run one second later.
\<close>

definition stamped_fs :: fs where
  "stamped_fs =
     [([''work''], Dir),
      ([''work'', ''Mod''], Dir),
      ([''work'', ''Mod'', ''Mod.csproj''], File (Bytes ''<Stamped/>'')),
      ([''work'', ''Mod'', ''README.md''], File (Bytes sample_readme)),
      ([''work'', ''Mod'', ''img''], Dir),
      ([''work'', ''Mod'', ''img'', ''icon.png''], File (Bytes ''PNG'')),
      ([''work'', ''Mod'', ''bin''], Dir),
      ([''work'', ''Mod'', ''bin'', ''Debug''], Dir),
      ([''work'', ''Mod'', ''bin'', ''Debug'', ''net472''], Dir),
      ([''work'', ''Mod'', ''bin'', ''Debug'', ''temp_package_20260102030406''], Dir),
      ([''work'', ''Mod'', ''bin'', ''Debug'', ''temp_package_20260102030406'', ''x.dll''],
       File (Bytes ''MZ'')),
      ([''work'', ''Mod'', ''dist''], Dir)]"

definition stamped_fs0 :: fs where
  "stamped_fs0 =
     stamped_fs @ [([''work'', ''Mod'', ''dist'', ''temp_package_20260102030406''], Dir)]"

definition stamped_fs1 :: fs where
  "stamped_fs1 =
     stamped_fs0
     @ [([''work'', ''Mod'', ''manifest.json''], File (Bytes sample_manifest)),
        ([''work'', ''Mod'', ''dist'', ''temp_package_20260102030406'', ''x.dll''],
         File (Bytes ''MZ'')),
        ([''work'', ''Mod'', ''dist'', ''Load Into Level-1.0.0.zip''],
         File (Zip [([''manifest.json''], Bytes sample_manifest),
                    ([''icon.png''], Bytes ''PNG''),
                    ([''README.md''], Bytes sample_readme)]))]"

definition stamped_fs2 :: fs where
  "stamped_fs2 =
     stamped_fs
     @ [([''work'', ''Mod'', ''manifest.json''], File (Bytes sample_manifest)),
        ([''work'', ''Mod'', ''dist'', ''Load Into Level-1.0.0.zip''],
         File (Zip [([''manifest.json''], Bytes sample_manifest),
                    ([''icon.png''], Bytes ''PNG''),
                    ([''README.md''], Bytes sample_readme),
                    ([''x.dll''], Bytes ''MZ'')]))]"

definition sample_packager :: file_packager where
  "sample_packager =
     make_packager sample_world ''LoadIntoLevel'' ''Load Into Level'' ''1.0.0''"

definition packaged_fs :: fs where
  "packaged_fs =
     staged_fs
     @ [([''work'', ''Mod'', ''dist''], Dir),
        ([''work'', ''Mod'', ''dist'', ''Load Into Level-1.0.0.zip''],
         File (Zip [([''manifest.json''], Bytes sample_manifest),
                    ([''icon.png''], Bytes ''PNG''),
                    ([''README.md''], Bytes sample_readme),
                    ([''LoadIntoLevel.dll''], Bytes ''MZ'')]))]"

section \<open>Properties\<close>

text \<open>The definitions a concrete file system is evaluated with.\<close>

lemmas fs_eval =
  node_at_def resolve_def stat_def path_exists_def path_isdir_def read_file_def
  open_write_def write_file_def fd_write_def os_mkdir_def mkdir_single_def rmtree_def
  shutil_copy_def walk_files_def pjoin_def parts_def path_name_def str_startswith_def

subsection \<open>Strings\<close>

lemma str_replace_absent:
  "\<not> sublist old s \<Longrightarrow> str_replace old new s = s"
proof (induction s)
  case Nil
  then show ?case by simp
next
  case (Cons c cs)
  have tail: "\<not> sublist old cs"
    using Cons.prems by (meson sublist_Cons_right)
  have here: "take (length old) (c # cs) \<noteq> old"
  proof
    assume h: "take (length old) (c # cs) = old"
    have "c # cs = [] @ old @ drop (length old) (c # cs)"
      using h append_take_drop_id [of "length old" "c # cs"] by simp
    then have "sublist old (c # cs)"
      unfolding sublist_def by blast
    with Cons.prems show False by simp
  qed
  show ?case using Cons.IH [OF tail] here by simp
qed

lemma str_replace_prefix:
  "old \<noteq> [] \<Longrightarrow> str_replace old new (old @ rest) = new @ str_replace old new rest"
  by (cases old) simp_all

lemma str_startswith_append [simp]: "str_startswith (p @ rest) p"
  by (simp add: str_startswith_def)

lemma ssh_not_https: "\<not> str_startswith (ssh_prefix @ rest) https_prefix"
  by (simp add: str_startswith_def ssh_prefix_def https_prefix_def)

subsection \<open>The description\<close>

lemma scan_summary_outside:
  "\<forall>l \<in> set lines. \<not> summary_header_pattern_match l \<Longrightarrow>
   scan_summary False acc lines = acc"
  by (induction lines arbitrary: acc) simp_all

lemma scan_summary_first_heading:
  "scan_summary False acc lines =
     (case dropWhile (\<lambda>l. \<not> summary_header_pattern_match l) lines of
        [] \<Rightarrow> acc
      | heading # following \<Rightarrow> scan_summary True acc following)"
  by (induction lines arbitrary: acc) simp_all

lemma scan_summary_inside:
  "scan_summary True acc lines =
     acc @ filter (\<lambda>l. l \<noteq> [])
             (map str_strip
                (filter (\<lambda>l. \<not> summary_header_pattern_match l)
                   (takeWhile
                      (\<lambda>l. summary_header_pattern_match l \<or> \<not> str_startswith l ''#'')
                      lines)))"
  by (induction lines arbitrary: acc) (simp_all add: Let_def)

lemma heading_is_hash: "summary_header_pattern_match l \<Longrightarrow> str_startswith l ''#''"
  by (simp add: summary_header_pattern_match_def)

text \<open>
  What the loop computes, in one expression: the lines after the first Summary heading
  are taken up to the first line that starts with \<^verbatim>\<open>#\<close> and is no Summary heading;
  Summary headings among them are dropped, the other lines trimmed, the empty ones
  dropped.
\<close>

lemma description_of_eq:
  "description_of readme =
     (case dropWhile (\<lambda>l. \<not> summary_header_pattern_match l)
             (readlines (universal_newlines readme)) of
        [] \<Rightarrow> []
      | heading # following \<Rightarrow>
          str_join '' ''
            (filter (\<lambda>l. l \<noteq> [])
               (map str_strip
                  (filter (\<lambda>l. \<not> summary_header_pattern_match l)
                     (takeWhile
                        (\<lambda>l. summary_header_pattern_match l \<or> \<not> str_startswith l ''#'')
                        following)))))"
proof -
  let ?ls = "readlines (universal_newlines readme)"
  have join: "(if xs \<noteq> [] then str_join '' '' xs else []) = str_join '' '' xs"
    for xs :: "string list"
    by simp
  have "description_of readme = str_join '' '' (scan_summary False [] ?ls)"
    unfolding description_of_def Let_def by (rule join)
  also have "scan_summary False [] ?ls =
      (case dropWhile (\<lambda>l. \<not> summary_header_pattern_match l) ?ls of
         [] \<Rightarrow> []
       | heading # following \<Rightarrow> scan_summary True [] following)"
    by (rule scan_summary_first_heading)
  finally show ?thesis
    by (cases "dropWhile (\<lambda>l. \<not> summary_header_pattern_match l) ?ls")
      (simp_all only: list.case scan_summary_inside append_Nil str_join.simps)
qed

text \<open>The example of the specification, and a README without a Summary heading.\<close>

lemma description_of_example:
  "description_of ''## Summary\<newline>Line one.\<newline>\<newline>Line two.\<newline>## Next''
   = ''Line one. Line two.''"
  by (simp add: description_of_def summary_header_pattern_match_def str_startswith_def
      py_isspace_def lower_code_def str_strip_def)

lemma description_of_no_heading:
  "\<forall>l \<in> set (readlines (universal_newlines readme)). \<not> summary_header_pattern_match l \<Longrightarrow>
   description_of readme = []"
  by (simp add: description_of_def scan_summary_outside)

text \<open>
  Where no second Summary heading follows the first before the section ends, the
  function returns what the specification describes.
\<close>

lemma takeWhile_without_summary:
  "\<forall>l \<in> set (takeWhile
      (\<lambda>l. summary_header_pattern_match l \<or> \<not> str_startswith l ''#'') ls).
      \<not> summary_header_pattern_match l \<Longrightarrow>
   takeWhile (\<lambda>l. summary_header_pattern_match l \<or> \<not> str_startswith l ''#'') ls
   = takeWhile (\<lambda>l. \<not> str_startswith l ''#'') ls"
proof (induction ls)
  case Nil
  then show ?case by simp
next
  case (Cons l ls)
  show ?case
  proof (cases "summary_header_pattern_match l")
    case True
    with Cons.prems show ?thesis by simp
  next
    case False
    show ?thesis
    proof (cases "str_startswith l ''#''")
      case True
      with False show ?thesis by simp
    next
      case hash: False
      with Cons.prems have "\<forall>l \<in> set (takeWhile
          (\<lambda>l. summary_header_pattern_match l \<or> \<not> str_startswith l ''#'') ls).
          \<not> summary_header_pattern_match l"
        by simp
      from Cons.IH [OF this] hash False show ?thesis by simp
    qed
  qed
qed

lemma description_of_single_heading:
  assumes "dropWhile (\<lambda>l. \<not> summary_header_pattern_match l)
             (readlines (universal_newlines readme)) = heading # following"
    and "\<forall>l \<in> set (takeWhile
           (\<lambda>l. summary_header_pattern_match l \<or> \<not> str_startswith l ''#'') following).
           \<not> summary_header_pattern_match l"
  shows "description_of readme = description_spec readme"
proof -
  have "filter (\<lambda>l. \<not> summary_header_pattern_match l)
          (takeWhile (\<lambda>l. summary_header_pattern_match l \<or> \<not> str_startswith l ''#'')
             following)
        = takeWhile (\<lambda>l. \<not> str_startswith l ''#'') following"
    using assms(2) takeWhile_without_summary [OF assms(2)] by (simp add: filter_id_conv)
  then show ?thesis
    using assms(1) by (simp add: description_of_eq description_spec_def)
qed

text \<open>
  C3. The claim holds for its example and for a README without a Summary heading, and
  fails where a second heading that matches the pattern follows the first: the loop
  tests a line for the Summary pattern before it tests it for the end of the section,
  so such a heading is skipped and the lines after it are collected as well. The README
  below has the section \<^verbatim>\<open># Summary\<close> with the line \<^verbatim>\<open>A\<close>, then the heading
  \<^verbatim>\<open>## Summary of changes\<close> with the line \<^verbatim>\<open>B\<close>. The lines up to the next heading are
  \<^verbatim>\<open>A\<close>; the function returns \<^verbatim>\<open>A B\<close>.
\<close>

theorem get_description_second_summary_heading:
  "get_description
     \<lparr>project_root = [''repo''], et_parse = (\<lambda>s. None),
      git_remote = Raised FileNotFoundError,
      now = \<lparr>year = 2026, month = 1, day = 2, hour = 3, minute = 4, second = 5\<rparr>\<rparr>
     [([''repo''], Dir),
      ([''repo'', ''README.md''],
       File (Bytes ''# Summary\<newline>A\<newline>## Summary of changes\<newline>B\<newline># Next\<newline>C''))]
   = Inr ''A B''
   \<and> description_spec ''# Summary\<newline>A\<newline>## Summary of changes\<newline>B\<newline># Next\<newline>C''
     = ''A''"
  by (simp add: get_description_def fs_eval description_of_def description_spec_def
      summary_header_pattern_match_def py_isspace_def lower_code_def str_strip_def)

subsection \<open>The repository URL\<close>

text \<open>
  C4. The function is to exchange the SSH host prefix of the URL for
  \<^verbatim>\<open>https://github.com/\<close>; it tests the prefix with \<^verbatim>\<open>startswith\<close> and then calls
  \<^verbatim>\<open>str.replace\<close> without a count, which exchanges every occurrence of
  \<^verbatim>\<open>git@github.com:\<close> in the URL. Here the remote is
  \<^verbatim>\<open>git@github.com:a/git@github.com:b\<close>; exchanging its prefix gives
  \<^verbatim>\<open>https://github.com/a/git@github.com:b\<close>, and the function returns
  \<^verbatim>\<open>https://github.com/a/https://github.com/b\<close>.
\<close>

theorem get_github_url_replaces_all:
  "str_startswith ''git@github.com:a/git@github.com:b'' ssh_prefix
   \<and> get_github_url (Completed 0 ''git@github.com:a/git@github.com:b'' [])
       = Inr ''https://github.com/a/https://github.com/b''
   \<and> get_github_url (Completed 0 ''git@github.com:a/git@github.com:b'' [])
       \<noteq> Inr (ssh_to_https_spec ''git@github.com:a/git@github.com:b'')"
  by (simp add: str_strip_def py_isspace_def str_startswith_def https_prefix_def
      ssh_prefix_def ssh_to_https_spec_def)

text \<open>
  Where the function does what is asked of it. The remote URL is the standard output of
  the tool with the surrounding whitespace stripped. A URL that begins with
  \<^verbatim>\<open>https://github.com/\<close> is returned as it is. A URL that begins with
  \<^verbatim>\<open>git@github.com:\<close> and has no further occurrence of it is returned with its prefix
  exchanged for \<^verbatim>\<open>https://github.com/\<close> (in general, every occurrence is exchanged).
  Any other URL, an exit status other than 0 and a missing tool give the empty string,
  and in none of these cases does the process end.
\<close>

lemma get_github_url_maps:
  "(str_startswith (str_strip out) https_prefix \<longrightarrow>
      get_github_url (Completed 0 out err) = Inr (str_strip out))
   \<and> (str_strip out = ssh_prefix @ rest \<longrightarrow>
      get_github_url (Completed 0 out err)
        = Inr (https_prefix @ str_replace ssh_prefix https_prefix rest))
   \<and> (str_strip out = ssh_prefix @ rest \<and> \<not> sublist ssh_prefix rest \<longrightarrow>
      get_github_url (Completed 0 out err) = Inr (ssh_to_https_spec (str_strip out)))
   \<and> (\<not> str_startswith (str_strip out) https_prefix
      \<and> \<not> str_startswith (str_strip out) ssh_prefix \<longrightarrow>
      get_github_url (Completed 0 out err) = Inr [])
   \<and> (rc \<noteq> 0 \<longrightarrow> get_github_url (Completed rc out err) = Inr [])
   \<and> get_github_url (Raised FileNotFoundError) = Inr []"
proof -
  have ssh: "get_github_url (Completed 0 out err)
      = Inr (https_prefix @ str_replace ssh_prefix https_prefix rest)"
    if h: "str_strip out = ssh_prefix @ rest"
  proof -
    have "ssh_prefix \<noteq> []" by (simp add: ssh_prefix_def)
    then have "str_replace ssh_prefix https_prefix (ssh_prefix @ rest)
        = https_prefix @ str_replace ssh_prefix https_prefix rest"
      by (rule str_replace_prefix)
    then show ?thesis using h ssh_not_https [of rest] by simp
  qed
  have once: "get_github_url (Completed 0 out err) = Inr (ssh_to_https_spec (str_strip out))"
    if h: "str_strip out = ssh_prefix @ rest" and n: "\<not> sublist ssh_prefix rest"
    using ssh [OF h] str_replace_absent [OF n] h by (simp add: ssh_to_https_spec_def)
  show ?thesis using ssh once by simp
qed

lemma get_github_url_maps_examples:
  "get_github_url (Completed 0 ''https://github.com/org/repo.git\<newline>'' [])
     = Inr ''https://github.com/org/repo.git''
   \<and> get_github_url (Completed 0 ''git@github.com:org/repo.git\<newline>'' [])
     = Inr ''https://github.com/org/repo.git''
   \<and> get_github_url (Completed 0 ''https://gitlab.com/x/y\<newline>'' []) = Inr []
   \<and> get_github_url (Completed 128 [] ''fatal: not a git repository'') = Inr []"
proof -
  have a: "str_startswith (str_strip ''https://github.com/org/repo.git\<newline>'') https_prefix"
    by (simp add: str_strip_def py_isspace_def str_startswith_def https_prefix_def)
  have b: "str_strip ''git@github.com:org/repo.git\<newline>'' = ssh_prefix @ ''org/repo.git''"
    by (simp add: str_strip_def py_isspace_def ssh_prefix_def)
  have c: "\<not> str_startswith (str_strip ''https://gitlab.com/x/y\<newline>'') https_prefix
      \<and> \<not> str_startswith (str_strip ''https://gitlab.com/x/y\<newline>'') ssh_prefix"
    by (simp add: str_strip_def py_isspace_def str_startswith_def https_prefix_def
        ssh_prefix_def)
  have d: "(128 :: int) \<noteq> 0" by simp
  have r1: "get_github_url (Completed 0 ''https://github.com/org/repo.git\<newline>'' [])
      = Inr (str_strip ''https://github.com/org/repo.git\<newline>'')"
    using a get_github_url_maps [of "''https://github.com/org/repo.git\<newline>''" "[]" "[]" 0]
    by blast
  have r2: "get_github_url (Completed 0 ''git@github.com:org/repo.git\<newline>'' [])
      = Inr (https_prefix @ str_replace ssh_prefix https_prefix ''org/repo.git'')"
    using b get_github_url_maps [of "''git@github.com:org/repo.git\<newline>''" "[]" "''org/repo.git''" 0]
    by blast
  have r3: "get_github_url (Completed 0 ''https://gitlab.com/x/y\<newline>'' []) = Inr []"
    using c get_github_url_maps [of "''https://gitlab.com/x/y\<newline>''" "[]" "[]" 0]
    by blast
  have r4: "get_github_url (Completed 128 [] ''fatal: not a git repository'') = Inr []"
    using d get_github_url_maps [of "[]" "''fatal: not a git repository''" "[]" 128]
    by blast
  have e1: "str_strip ''https://github.com/org/repo.git\<newline>''
      = ''https://github.com/org/repo.git''"
    by (simp add: str_strip_def py_isspace_def)
  have e2: "https_prefix @ str_replace ssh_prefix https_prefix ''org/repo.git''
      = ''https://github.com/org/repo.git''"
    by (simp add: https_prefix_def ssh_prefix_def)
  show ?thesis
    using r1 r2 r3 r4 e1 e2 by simp
qed

subsection \<open>The project file\<close>

lemma find_ne_None_iff:
  "find root xp \<noteq> None \<longleftrightarrow>
     (\<exists>g \<in> set (concat (map iter (children root))).
        tag g = fst xp \<and> (\<exists>e \<in> set (children g). tag e = snd xp))"
proof -
  have "find root xp \<noteq> None \<longleftrightarrow> findall root xp \<noteq> []"
    by (simp add: find_def split: list.splits)
  also have "\<dots> \<longleftrightarrow> (\<exists>g \<in> set (concat (map iter (children root))).
        tag g = fst xp \<and> (\<exists>e \<in> set (children g). tag e = snd xp))"
    by (auto simp: findall_def filter_empty_conv)
  finally show ?thesis .
qed

lemma load_csproj_fresh:
  "read_file fs p = Inr (Bytes s) \<Longrightarrow> et_parse w s = Some root \<Longrightarrow>
   load_csproj w fs \<lparr>csproj_root = None\<rparr> p = Inr (root, \<lparr>csproj_root = Some root\<rparr>)"
  by (simp add: load_csproj_def)

lemma load_csproj_cached:
  "load_csproj w fs \<lparr>csproj_root = Some root\<rparr> p = Inr (root, \<lparr>csproj_root = Some root\<rparr>)"
  by (simp add: load_csproj_def)

lemma load_csproj_cases:
  "load_csproj w fs self p = Inl (SysExit 1)
   \<or> (\<exists>root. load_csproj w fs self p = Inr (root, \<lparr>csproj_root = Some root\<rparr>))"
  by (cases self) (auto simp: load_csproj_def split: option.splits sum.splits content.splits)

lemma load_csproj_unparsed:
  "read_file fs p = Inl e \<or> (\<exists>es. read_file fs p = Inr (Zip es))
     \<or> (\<exists>s. read_file fs p = Inr (Bytes s) \<and> et_parse w s = None) \<Longrightarrow>
   load_csproj w fs \<lparr>csproj_root = None\<rparr> p = Inl (SysExit 1)"
  by (auto simp: load_csproj_def)

lemma retreive_ok:
  assumes "load_csproj w fs self (csproj_path w) = Inr (root, self')"
    and "find root xp = Some e" and "elem_text e = Some t" and "t \<noteq> []"
  shows "retreive_csproj_element w fs self xp = Inr (t, self')"
  using assms by (simp add: retreive_csproj_element_def)

lemma retreive_missing:
  assumes "load_csproj w fs self (csproj_path w) = Inr (root, self')"
    and "field_missing root xp"
  shows "retreive_csproj_element w fs self xp = Inl (SysExit 1)"
  using assms
  by (auto simp add: retreive_csproj_element_def field_missing_def split: option.splits)

lemma retreive_unparsed:
  "load_csproj w fs self (csproj_path w) = Inl a \<Longrightarrow>
   retreive_csproj_element w fs self xp = Inl a"
  by (simp add: retreive_csproj_element_def)

lemma retreive_result:
  "retreive_csproj_element w fs self xp = Inr (t, self') \<Longrightarrow>
   t \<noteq> [] \<and> (\<exists>root e. load_csproj w fs self (csproj_path w) = Inr (root, self')
      \<and> find root xp = Some e \<and> elem_text e = Some t)"
  by (auto simp add: retreive_csproj_element_def split: sum.splits option.splits if_splits)

lemma retreive_abort:
  "retreive_csproj_element w fs self xp = Inl a \<Longrightarrow> a = SysExit 1"
  using load_csproj_cases [of w fs self "csproj_path w"]
  by (auto simp add: retreive_csproj_element_def split: sum.splits option.splits if_splits)

text \<open>The lookup and the fields of the tree.\<close>

lemma iter_below: "set (iter r) = insert r {g. below g r}"
proof (induction r)
  case (Element t x cs)
  have "set (concat (map iter cs)) = {g. g \<in> set cs \<or> (\<exists>c \<in> set cs. below g c)}"
    using Element by auto
  then show ?case by simp
qed

lemma below_iter: "set (concat (map iter (children r))) = {g. below g r}"
proof (cases r)
  case (Element t x cs)
  then show ?thesis by (auto simp: iter_below)
qed

lemma findall_fields: "e \<in> set (findall root xp) \<longleftrightarrow> is_field root xp e"
proof -
  have "e \<in> set (findall root xp) \<longleftrightarrow>
      (\<exists>g \<in> set (concat (map iter (children root))).
         tag g = fst xp \<and> e \<in> set (children g) \<and> tag e = snd xp)"
    by (auto simp: findall_def)
  also have "\<dots> \<longleftrightarrow> (\<exists>g. below g root \<and> tag g = fst xp \<and> e \<in> set (children g) \<and> tag e = snd xp)"
    unfolding below_iter by blast
  also have "\<dots> \<longleftrightarrow> is_field root xp e"
    unfolding is_field_def by blast
  finally show ?thesis .
qed

lemma find_is_field: "find root xp = Some e \<Longrightarrow> is_field root xp e"
proof -
  assume "find root xp = Some e"
  then have "e \<in> set (findall root xp)"
    by (cases "findall root xp") (simp_all add: find_def)
  then show ?thesis by (simp add: findall_fields)
qed

lemma field_holds_find:
  assumes "field_holds root xp t"
  shows "\<exists>e. find root xp = Some e \<and> elem_text e = Some t"
proof -
  from assms obtain e0 where "is_field root xp e0" unfolding field_holds_def by blast
  then have "e0 \<in> set (findall root xp)" by (simp add: findall_fields)
  then obtain e es where "findall root xp = e # es" by (cases "findall root xp") auto
  then have f: "find root xp = Some e" by (simp add: find_def)
  from find_is_field [OF f] assms have "elem_text e = Some t" unfolding field_holds_def by blast
  with f show ?thesis by blast
qed

lemma field_holds_eval:
  "field_holds root xp t \<longleftrightarrow>
     findall root xp \<noteq> [] \<and> list_all (\<lambda>e. elem_text e = Some t) (findall root xp)"
proof -
  have "(\<exists>e. is_field root xp e) \<longleftrightarrow> findall root xp \<noteq> []"
    using findall_fields [of _ root xp] by (cases "findall root xp") auto
  moreover have "(\<forall>e. is_field root xp e \<longrightarrow> elem_text e = Some t)
      \<longleftrightarrow> list_all (\<lambda>e. elem_text e = Some t) (findall root xp)"
    using findall_fields [of _ root xp] by (auto simp: list_all_iff)
  ultimately show ?thesis by (simp add: field_holds_def)
qed

lemma retreive_field:
  assumes "load_csproj w fs self (csproj_path w) = Inr (root, self')"
    and "field_holds root xp t" and "t \<noteq> []"
  shows "retreive_csproj_element w fs self xp = Inr (t, self')"
proof -
  from field_holds_find [OF assms(2)] obtain e where
    e: "find root xp = Some e" "elem_text e = Some t"
    by blast
  from assms(1) e assms(3) show ?thesis by (rule retreive_ok)
qed

lemma load_csproj_fresh_Inr:
  assumes "load_csproj w fs \<lparr>csproj_root = None\<rparr> p = Inr (root, self')"
  shows "\<exists>s. read_file fs p = Inr (Bytes s) \<and> et_parse w s = Some root"
  using assms
  by (auto simp: load_csproj_def split: sum.splits content.splits option.splits)

text \<open>
  C6, as the claim states it, fails. The project file \<^verbatim>\<open><Twice/>\<close> has an empty
  \<^verbatim>\<open>AssemblyName\<close> in its first property group and the assembly name \<^verbatim>\<open>Later\<close> in its
  second one, where MSBuild reads it; the project file \<^verbatim>\<open><Namespaced/>\<close> has its assembly
  name in an element of the MSBuild namespace. Both are valid project files with an
  assembly name that is not empty, and with both \<^verbatim>\<open>get_dll_name\<close> ends the process:
  the lookup takes the first element the path selects, and it compares tags with their
  namespace.
\<close>

theorem get_dll_name_misses_assembly_name:
  "et_parse sample_world ''<Twice/>'' = Some twice_csproj
   \<and> is_field twice_csproj (''PropertyGroup'', ''AssemblyName'')
       (Element ''AssemblyName'' (Some ''Later'') [])
   \<and> get_dll_name sample_world (sample_fs ''<Twice/>'' ''Later.dll'') \<lparr>csproj_root = None\<rparr>
       = Inl (SysExit 1)
   \<and> et_parse sample_world ''<Namespaced/>'' = Some namespaced_csproj
   \<and> Element ''{http://schemas.microsoft.com/developer/msbuild/2003}AssemblyName''
         (Some ''LoadIntoLevel'') []
       \<in> set (iter namespaced_csproj)
   \<and> get_dll_name sample_world (sample_fs ''<Namespaced/>'' ''LoadIntoLevel.dll'')
         \<lparr>csproj_root = None\<rparr>
       = Inl (SysExit 1)"
proof -
  have "is_field twice_csproj (''PropertyGroup'', ''AssemblyName'')
      (Element ''AssemblyName'' (Some ''Later'') [])"
    unfolding findall_fields [symmetric] by (simp add: findall_def twice_csproj_def)
  moreover have "get_dll_name sample_world (sample_fs ''<Twice/>'' ''Later.dll'')
      \<lparr>csproj_root = None\<rparr> = Inl (SysExit 1)"
    by (simp add: get_dll_name_def retreive_csproj_element_def load_csproj_def csproj_path_def
        PROJECT_NAME_def sample_world_def sample_fs_def sample_parse_def fs_eval find_def
        findall_def twice_csproj_def)
  moreover have "get_dll_name sample_world (sample_fs ''<Namespaced/>'' ''LoadIntoLevel.dll'')
      \<lparr>csproj_root = None\<rparr> = Inl (SysExit 1)"
    by (simp add: get_dll_name_def retreive_csproj_element_def load_csproj_def csproj_path_def
        PROJECT_NAME_def sample_world_def sample_fs_def sample_parse_def fs_eval find_def
        findall_def namespaced_csproj_def)
  moreover have "Element ''{http://schemas.microsoft.com/developer/msbuild/2003}AssemblyName''
      (Some ''LoadIntoLevel'') [] \<in> set (iter namespaced_csproj)"
    by (simp add: namespaced_csproj_def)
  ultimately show ?thesis by (simp add: sample_world_def sample_parse_def)
qed

text \<open>
  C6, amended. When the project file parses to a tree in which the assembly name field
  holds a text that is not empty (an \<^verbatim>\<open>AssemblyName\<close> element is a child of a
  \<^verbatim>\<open>PropertyGroup\<close> element below the root, and every such element has this text, as
  when the field is written once), \<^verbatim>\<open>get_dll_name\<close> returns that text followed by
  \<^verbatim>\<open>.dll\<close>. A name it returns from a project file is the text, not empty, of such an
  element of the parsed tree, followed by \<^verbatim>\<open>.dll\<close>; and no name it returns is empty.
\<close>

theorem get_dll_name_appends_extension:
  "(read_file fs (csproj_path w) = Inr (Bytes s) \<and> et_parse w s = Some root
      \<and> field_holds root (''PropertyGroup'', ''AssemblyName'') t \<and> t \<noteq> [] \<longrightarrow>
    get_dll_name w fs \<lparr>csproj_root = None\<rparr> = Inr (t @ ''.dll'', \<lparr>csproj_root = Some root\<rparr>))
   \<and> (get_dll_name w fs \<lparr>csproj_root = None\<rparr> = Inr (name, self') \<longrightarrow>
       (\<exists>s' root' e t'. read_file fs (csproj_path w) = Inr (Bytes s')
          \<and> et_parse w s' = Some root'
          \<and> is_field root' (''PropertyGroup'', ''AssemblyName'') e
          \<and> elem_text e = Some t' \<and> t' \<noteq> [] \<and> name = t' @ ''.dll''))
   \<and> (get_dll_name w fs self = Inr (name, self') \<longrightarrow> name \<noteq> [])"
proof -
  have "get_dll_name w fs \<lparr>csproj_root = None\<rparr> = Inr (t @ ''.dll'', \<lparr>csproj_root = Some root\<rparr>)"
    if "read_file fs (csproj_path w) = Inr (Bytes s)" "et_parse w s = Some root"
      "field_holds root (''PropertyGroup'', ''AssemblyName'') t" "t \<noteq> []"
    using retreive_field [OF load_csproj_fresh [OF that(1,2)] that(3,4)]
    by (simp add: get_dll_name_def)
  moreover have "\<exists>s' root' e t'. read_file fs (csproj_path w) = Inr (Bytes s')
      \<and> et_parse w s' = Some root'
      \<and> is_field root' (''PropertyGroup'', ''AssemblyName'') e
      \<and> elem_text e = Some t' \<and> t' \<noteq> [] \<and> name = t' @ ''.dll''"
    if "get_dll_name w fs \<lparr>csproj_root = None\<rparr> = Inr (name, self')"
  proof -
    from that obtain t' where
      r: "retreive_csproj_element w fs \<lparr>csproj_root = None\<rparr> (''PropertyGroup'', ''AssemblyName'')
        = Inr (t', self')"
      and n: "name = t' @ ''.dll''"
      by (auto simp: get_dll_name_def split: sum.splits)
    from retreive_result [OF r] obtain root' e where
      l: "load_csproj w fs \<lparr>csproj_root = None\<rparr> (csproj_path w) = Inr (root', self')"
      and f: "find root' (''PropertyGroup'', ''AssemblyName'') = Some e"
        "elem_text e = Some t'" "t' \<noteq> []"
      by blast
    from load_csproj_fresh_Inr [OF l] obtain s' where
      "read_file fs (csproj_path w) = Inr (Bytes s')" "et_parse w s' = Some root'"
      by blast
    with find_is_field [OF f(1)] f(2,3) n show ?thesis by blast
  qed
  moreover have "name \<noteq> []" if "get_dll_name w fs self = Inr (name, self')"
    using that by (auto simp: get_dll_name_def split: sum.splits)
  ultimately show ?thesis by blast
qed

theorem get_dll_name_appends_extension_witness:
  "field_holds sample_csproj (''PropertyGroup'', ''AssemblyName'') ''LoadIntoLevel''
   \<and> get_dll_name sample_world (sample_fs ''<Project/>'' ''LoadIntoLevel.dll'')
       \<lparr>csproj_root = None\<rparr>
     = Inr (''LoadIntoLevel.dll'', \<lparr>csproj_root = Some sample_csproj\<rparr>)"
proof -
  let ?fs = "sample_fs ''<Project/>'' ''LoadIntoLevel.dll''"
  have r: "read_file ?fs (csproj_path sample_world) = Inr (Bytes ''<Project/>'')"
    by (simp add: csproj_path_def PROJECT_NAME_def sample_world_def sample_fs_def fs_eval)
  have p: "et_parse sample_world ''<Project/>'' = Some sample_csproj"
    by (simp add: sample_world_def sample_parse_def)
  have f: "field_holds sample_csproj (''PropertyGroup'', ''AssemblyName'') ''LoadIntoLevel''"
    by (simp add: field_holds_eval findall_def sample_csproj_def)
  have t: "''LoadIntoLevel'' \<noteq> []" by simp
  from r p f t
    get_dll_name_appends_extension [of ?fs sample_world "''<Project/>''" sample_csproj
      "''LoadIntoLevel''"]
  show ?thesis by simp
qed

text \<open>
  C7. With a project file that parses, each of the three lookups ends the process with
  \<^verbatim>\<open>sys.exit(1)\<close> when its field is missing (no element, or an element without text or
  with empty text); with a project file that cannot be read or does not parse, each of
  them ends the process the same way. The exit status is 1, and it is the only way any
  of the three fails.
\<close>

theorem missing_field_exits_1:
  "(load_csproj w fs self (csproj_path w) = Inr (root, self') \<longrightarrow>
      (field_missing root (''PropertyGroup'', ''AssemblyName'') \<longrightarrow>
         get_dll_name w fs self = Inl (SysExit 1))
      \<and> (field_missing root (''PropertyGroup'', ''Version'') \<longrightarrow>
         get_dll_version w fs self = Inl (SysExit 1))
      \<and> (field_missing root (''PropertyGroup'', ''Product'') \<longrightarrow>
         get_mod_name w fs self = Inl (SysExit 1)))
   \<and> (read_file fs (csproj_path w) = Inl e
        \<or> (\<exists>s. read_file fs (csproj_path w) = Inr (Bytes s) \<and> et_parse w s = None) \<longrightarrow>
      get_dll_name w fs \<lparr>csproj_root = None\<rparr> = Inl (SysExit 1)
      \<and> get_dll_version w fs \<lparr>csproj_root = None\<rparr> = Inl (SysExit 1)
      \<and> get_mod_name w fs \<lparr>csproj_root = None\<rparr> = Inl (SysExit 1))
   \<and> (get_dll_name w fs self = Inl a \<or> get_dll_version w fs self = Inl a
        \<or> get_mod_name w fs self = Inl a \<longrightarrow> a = SysExit 1)
   \<and> exit_code (SysExit 1) = 1"
proof -
  have missing: "retreive_csproj_element w fs self xp = Inl (SysExit 1)"
    if "load_csproj w fs self (csproj_path w) = Inr (root, self')" "field_missing root xp"
    for xp
    using that by (rule retreive_missing)
  have unparsed: "retreive_csproj_element w fs \<lparr>csproj_root = None\<rparr> xp = Inl (SysExit 1)"
    if "read_file fs (csproj_path w) = Inl e
        \<or> (\<exists>s. read_file fs (csproj_path w) = Inr (Bytes s) \<and> et_parse w s = None)"
    for xp
  proof -
    have "load_csproj w fs \<lparr>csproj_root = None\<rparr> (csproj_path w) = Inl (SysExit 1)"
      using that by (intro load_csproj_unparsed) blast
    then show ?thesis by (rule retreive_unparsed)
  qed
  have name_abort: "a = SysExit 1" if "get_dll_name w fs self = Inl a"
  proof (cases "retreive_csproj_element w fs self (''PropertyGroup'', ''AssemblyName'')")
    case (Inl b)
    with that have "b = a" by (simp add: get_dll_name_def)
    with Inl show ?thesis by (simp add: retreive_abort)
  next
    case (Inr r)
    with that show ?thesis by (simp add: get_dll_name_def split: prod.splits)
  qed
  have only: "a = SysExit 1"
    if "get_dll_name w fs self = Inl a \<or> get_dll_version w fs self = Inl a
        \<or> get_mod_name w fs self = Inl a"
    using that name_abort retreive_abort [of w fs self _ a]
    unfolding get_dll_version_def get_mod_name_def by blast
  show ?thesis
  proof (intro conjI impI)
    assume "load_csproj w fs self (csproj_path w) = Inr (root, self')"
      and "field_missing root (''PropertyGroup'', ''AssemblyName'')"
    then show "get_dll_name w fs self = Inl (SysExit 1)"
      by (simp add: get_dll_name_def missing)
  next
    assume "load_csproj w fs self (csproj_path w) = Inr (root, self')"
      and "field_missing root (''PropertyGroup'', ''Version'')"
    then show "get_dll_version w fs self = Inl (SysExit 1)"
      unfolding get_dll_version_def by (rule missing)
  next
    assume "load_csproj w fs self (csproj_path w) = Inr (root, self')"
      and "field_missing root (''PropertyGroup'', ''Product'')"
    then show "get_mod_name w fs self = Inl (SysExit 1)"
      unfolding get_mod_name_def by (rule missing)
  next
    assume "read_file fs (csproj_path w) = Inl e
        \<or> (\<exists>s. read_file fs (csproj_path w) = Inr (Bytes s) \<and> et_parse w s = None)"
    then show "get_dll_name w fs \<lparr>csproj_root = None\<rparr> = Inl (SysExit 1)"
      by (simp add: get_dll_name_def unparsed)
  next
    assume "read_file fs (csproj_path w) = Inl e
        \<or> (\<exists>s. read_file fs (csproj_path w) = Inr (Bytes s) \<and> et_parse w s = None)"
    then show "get_dll_version w fs \<lparr>csproj_root = None\<rparr> = Inl (SysExit 1)"
      unfolding get_dll_version_def by (rule unparsed)
  next
    assume "read_file fs (csproj_path w) = Inl e
        \<or> (\<exists>s. read_file fs (csproj_path w) = Inr (Bytes s) \<and> et_parse w s = None)"
    then show "get_mod_name w fs \<lparr>csproj_root = None\<rparr> = Inl (SysExit 1)"
      unfolding get_mod_name_def by (rule unparsed)
  next
    assume "get_dll_name w fs self = Inl a \<or> get_dll_version w fs self = Inl a
        \<or> get_mod_name w fs self = Inl a"
    then show "a = SysExit 1" by (rule only)
  next
    show "exit_code (SysExit 1) = 1" by simp
  qed
qed

theorem missing_field_exits_1_witness:
  "get_dll_name sample_world (sample_fs ''<Broken/>'' ''x.dll'') \<lparr>csproj_root = None\<rparr>
     = Inl (SysExit 1)
   \<and> get_dll_version sample_world (sample_fs ''<Broken/>'' ''x.dll'') \<lparr>csproj_root = None\<rparr>
     = Inl (SysExit 1)
   \<and> get_mod_name sample_world (sample_fs ''<Broken/>'' ''x.dll'') \<lparr>csproj_root = None\<rparr>
     = Inl (SysExit 1)
   \<and> get_dll_name sample_world (sample_fs ''<Project'' ''x.dll'') \<lparr>csproj_root = None\<rparr>
     = Inl (SysExit 1)
   \<and> get_dll_version sample_world (sample_fs ''<Project'' ''x.dll'') \<lparr>csproj_root = None\<rparr>
     = Inl (SysExit 1)
   \<and> get_mod_name sample_world (sample_fs ''<Project'' ''x.dll'') \<lparr>csproj_root = None\<rparr>
     = Inl (SysExit 1)"
proof -
  let ?b = "sample_fs ''<Broken/>'' ''x.dll''" and ?u = "sample_fs ''<Project'' ''x.dll''"
  have "read_file ?b (csproj_path sample_world) = Inr (Bytes ''<Broken/>'')"
    by (simp add: csproj_path_def PROJECT_NAME_def sample_world_def sample_fs_def fs_eval)
  moreover have "et_parse sample_world ''<Broken/>'' = Some broken_csproj"
    by (simp add: sample_world_def sample_parse_def)
  ultimately have load: "load_csproj sample_world ?b \<lparr>csproj_root = None\<rparr>
      (csproj_path sample_world) = Inr (broken_csproj, \<lparr>csproj_root = Some broken_csproj\<rparr>)"
    by (rule load_csproj_fresh)
  have missing: "field_missing broken_csproj (''PropertyGroup'', ''AssemblyName'')"
    "field_missing broken_csproj (''PropertyGroup'', ''Version'')"
    "field_missing broken_csproj (''PropertyGroup'', ''Product'')"
    by (simp_all add: field_missing_def find_def findall_def broken_csproj_def)
  have unparsed: "read_file ?u (csproj_path sample_world) = Inl FileNotFoundError
      \<or> (\<exists>s. read_file ?u (csproj_path sample_world) = Inr (Bytes s)
           \<and> et_parse sample_world s = None)"
    by (simp add: csproj_path_def PROJECT_NAME_def sample_world_def sample_fs_def fs_eval
        sample_parse_def)
  from load missing
    missing_field_exits_1 [of sample_world ?b "\<lparr>csproj_root = None\<rparr>" broken_csproj
      "\<lparr>csproj_root = Some broken_csproj\<rparr>"]
  have "get_dll_name sample_world ?b \<lparr>csproj_root = None\<rparr> = Inl (SysExit 1)
      \<and> get_dll_version sample_world ?b \<lparr>csproj_root = None\<rparr> = Inl (SysExit 1)
      \<and> get_mod_name sample_world ?b \<lparr>csproj_root = None\<rparr> = Inl (SysExit 1)"
    by blast
  moreover from unparsed
    missing_field_exits_1 [of sample_world ?u _ _ _ FileNotFoundError]
  have "get_dll_name sample_world ?u \<lparr>csproj_root = None\<rparr> = Inl (SysExit 1)
      \<and> get_dll_version sample_world ?u \<lparr>csproj_root = None\<rparr> = Inl (SysExit 1)
      \<and> get_mod_name sample_world ?u \<lparr>csproj_root = None\<rparr> = Inl (SysExit 1)"
    by blast
  ultimately show ?thesis by blast
qed

subsection \<open>The manifest as JSON\<close>

lemma unhex_hex_digit: "k < 16 \<Longrightarrow> unhex (hex_digit k) = Some k"
proof -
  assume "k < 16"
  then have "k = 0 \<or> k = 1 \<or> k = 2 \<or> k = 3 \<or> k = 4 \<or> k = 5 \<or> k = 6 \<or> k = 7
    \<or> k = 8 \<or> k = 9 \<or> k = 10 \<or> k = 11 \<or> k = 12 \<or> k = 13 \<or> k = 14 \<or> k = 15"
    by presburger
  then show ?thesis
    by (elim disjE) (simp_all add: unhex_def hex_digit_def)
qed

lemma unhex_zero: "unhex (CHR ''0'') = Some 0"
  by (simp add: unhex_def)

lemma unicode_escape_hex:
  "unicode_escape (CHR ''0'') (CHR ''0'') (hex_digit (of_char c div 16)) (hex_digit (of_char c mod 16)) = Some c"
proof -
  have "(of_char c :: nat) < 256" by simp
  then have d: "(of_char c :: nat) div 16 < 16" by arith
  have m: "(of_char c :: nat) mod 16 < 16" by simp
  have "char_of (16 * ((of_char c :: nat) div 16) + of_char c mod 16) = c" by simp
  then show ?thesis
    by (simp add: unicode_escape_def unhex_zero unhex_hex_digit [OF d] unhex_hex_digit [OF m])
qed

lemma lex_string_escape_char:
  "lex_string acc (escape_char c @ rest) = lex_string (acc @ [c]) rest"
proof -
  consider (special) "c \<in> {CHR 0x22, CHR 0x5C, CHR 0x08, CHR 0x09, CHR 0x0A, CHR 0x0C, CHR 0x0D}"
    | (plain) "c \<notin> {CHR 0x22, CHR 0x5C, CHR 0x08, CHR 0x09, CHR 0x0A, CHR 0x0C, CHR 0x0D}"
        "32 \<le> (of_char c :: nat) \<and> (of_char c :: nat) \<le> 126"
    | (other) "c \<notin> {CHR 0x22, CHR 0x5C, CHR 0x08, CHR 0x09, CHR 0x0A, CHR 0x0C, CHR 0x0D}"
        "\<not> (32 \<le> (of_char c :: nat) \<and> (of_char c :: nat) \<le> 126)"
    by blast
  then show ?thesis
  proof cases
    case special
    then show ?thesis by (auto simp: escape_char_def unescape_def)
  next
    case plain
    then show ?thesis by (simp add: escape_char_def)
  next
    case other
    then show ?thesis by (simp add: escape_char_def unicode_escape_hex)
  qed
qed

lemma lex_string_escaped:
  "lex_string acc (concat (map escape_char s) @ CHR 0x22 # rest)
   = map_option (Cons (TString (acc @ s))) (lex rest)"
proof (induction s arbitrary: acc)
  case Nil
  then show ?case by simp
next
  case (Cons c s)
  have "lex_string acc (concat (map escape_char (c # s)) @ CHR 0x22 # rest)
      = lex_string acc (escape_char c @ (concat (map escape_char s) @ CHR 0x22 # rest))"
    by simp
  also have "\<dots> = lex_string (acc @ [c]) (concat (map escape_char s) @ CHR 0x22 # rest)"
    by (rule lex_string_escape_char)
  also have "\<dots> = map_option (Cons (TString ((acc @ [c]) @ s))) (lex rest)"
    by (rule Cons.IH)
  finally show ?case by simp
qed

lemma lex_encode_string:
  "lex (encode_string s @ rest) = map_option (Cons (TString s)) (lex rest)"
  using lex_string_escaped [of "[]" s rest]
  by (simp add: encode_string_def json_ws_def)

lemma lex_newline_indent: "lex (newline_indent n @ rest) = lex rest"
proof -
  have "lex (replicate k (CHR '' '') @ rest) = lex rest" for k
    by (induction k) (simp_all add: json_ws_def)
  then show ?thesis by (simp add: newline_indent_def json_ws_def)
qed

lemma str_join_Cons: "str_join sep (x # xs) = x @ concat (map ((@) sep) xs)"
  by (induction xs arbitrary: x) simp_all

lemma lex_Some_append:
  "map_option ((@) ts) (map_option ((@) us) r) = map_option ((@) (ts @ us)) r"
  by (cases r) simp_all

lemma lex_more_strings:
  "lex (concat (map ((@) ('','' @ newline_indent n)) (map encode_string ys)) @ rest)
   = map_option ((@) (concat (map (\<lambda>y. [Comma, TString y]) ys))) (lex rest)"
proof (induction ys)
  case Nil
  show ?case by (cases "lex rest") simp_all
next
  case (Cons y ys)
  let ?tail = "concat (map ((@) ('','' @ newline_indent n)) (map encode_string ys)) @ rest"
  have "lex (concat (map ((@) ('','' @ newline_indent n)) (map encode_string (y # ys))) @ rest)
      = lex (CHR '','' # (newline_indent n @ (encode_string y @ ?tail)))"
    by simp
  also have "\<dots> = map_option (Cons Comma) (lex (newline_indent n @ (encode_string y @ ?tail)))"
    by (simp add: json_ws_def)
  also have "\<dots> = map_option (Cons Comma) (map_option (Cons (TString y)) (lex ?tail))"
    by (simp only: lex_newline_indent lex_encode_string)
  also have "\<dots> = map_option ((@) (concat (map (\<lambda>y. [Comma, TString y]) (y # ys)))) (lex rest)"
    unfolding Cons.IH by (cases "lex rest") simp_all
  finally show ?case .
qed

lemma lex_encode_value:
  "lex (encode_value v @ rest) = map_option ((@) (value_tokens v)) (lex rest)"
proof (cases v)
  case (Str s)
  then show ?thesis
    using lex_encode_string [of s rest]
    by (cases "lex rest") (simp_all add: encode_value_def value_tokens_def)
next
  case (StrList xs)
  show ?thesis
  proof (cases xs)
    case Nil
    with StrList show ?thesis
      by (cases "lex rest") (simp_all add: encode_value_def value_tokens_def json_ws_def)
  next
    case (Cons x ys)
    let ?more = "concat (map ((@) ('','' @ newline_indent 2)) (map encode_string ys))"
    have "encode_value v @ rest
        = CHR ''['' # (newline_indent 2 @ (encode_string x @ (?more @ (newline_indent 1 @ (CHR '']'' # rest)))))"
      using StrList Cons by (simp add: encode_value_def str_join_Cons)
    then have "lex (encode_value v @ rest)
        = map_option (Cons LBracket) (lex (newline_indent 2 @ (encode_string x @ (?more @ (newline_indent 1 @ (CHR '']'' # rest))))))"
      by (simp add: json_ws_def)
    also have "\<dots> = map_option (Cons LBracket) (map_option (Cons (TString x))
        (map_option ((@) (concat (map (\<lambda>y. [Comma, TString y]) ys)))
           (lex (newline_indent 1 @ (CHR '']'' # rest)))))"
      by (simp only: lex_newline_indent lex_encode_string lex_more_strings)
    also have "lex (newline_indent 1 @ (CHR '']'' # rest)) = map_option (Cons RBracket) (lex rest)"
      by (simp add: lex_newline_indent json_ws_def)
    finally show ?thesis
      using StrList Cons by (cases "lex rest") (simp_all add: value_tokens_def)
  qed
qed

lemma lex_encode_item:
  "lex (encode_item kv @ rest) = map_option ((@) (item_tokens kv)) (lex rest)"
proof -
  have "encode_item kv @ rest
      = encode_string (fst kv) @ (CHR '':'' # CHR '' '' # (encode_value (snd kv) @ rest))"
    by (simp add: encode_item_def)
  then have "lex (encode_item kv @ rest)
      = map_option (Cons (TString (fst kv))) (lex (CHR '':'' # CHR '' '' # (encode_value (snd kv) @ rest)))"
    by (simp only: lex_encode_string)
  also have "lex (CHR '':'' # CHR '' '' # (encode_value (snd kv) @ rest))
      = map_option (Cons Colon) (lex (encode_value (snd kv) @ rest))"
    by (simp add: json_ws_def)
  finally show ?thesis
    by (cases "lex rest") (simp_all add: lex_encode_value item_tokens_def)
qed

lemma lex_more_items:
  "lex (concat (map ((@) ('','' @ newline_indent 1)) (map encode_item kvs)) @ rest)
   = map_option ((@) (concat (map (\<lambda>kv. Comma # item_tokens kv) kvs))) (lex rest)"
proof (induction kvs)
  case Nil
  show ?case by (cases "lex rest") simp_all
next
  case (Cons kv kvs)
  let ?tail = "concat (map ((@) ('','' @ newline_indent 1)) (map encode_item kvs)) @ rest"
  have "lex (concat (map ((@) ('','' @ newline_indent 1)) (map encode_item (kv # kvs))) @ rest)
      = lex (CHR '','' # (newline_indent 1 @ (encode_item kv @ ?tail)))"
    by simp
  also have "\<dots> = map_option (Cons Comma) (lex (newline_indent 1 @ (encode_item kv @ ?tail)))"
    by (simp add: json_ws_def)
  also have "\<dots> = map_option (Cons Comma) (map_option ((@) (item_tokens kv)) (lex ?tail))"
    by (simp only: lex_newline_indent lex_encode_item)
  also have "\<dots> = map_option ((@) (concat (map (\<lambda>kv. Comma # item_tokens kv) (kv # kvs)))) (lex rest)"
    unfolding Cons.IH by (cases "lex rest") simp_all
  finally show ?case .
qed

lemma lex_items:
  "lex (''{'' @ newline_indent 1 @ str_join ('','' @ newline_indent 1) (map encode_item (kv # kvs))
        @ newline_indent 0 @ ''}'')
   = Some (manifest_tokens (kv # kvs))"
proof -
  let ?more = "concat (map ((@) ('','' @ newline_indent 1)) (map encode_item kvs))"
  have "''{'' @ newline_indent 1 @ str_join ('','' @ newline_indent 1) (map encode_item (kv # kvs))
        @ newline_indent 0 @ ''}''
      = CHR ''{'' # (newline_indent 1 @ (encode_item kv @ (?more @ (newline_indent 0 @ ''}''))))"
    by (simp add: str_join_Cons)
  then have "lex (''{'' @ newline_indent 1 @ str_join ('','' @ newline_indent 1) (map encode_item (kv # kvs))
        @ newline_indent 0 @ ''}'')
      = map_option (Cons LBrace) (lex (newline_indent 1 @ (encode_item kv @ (?more @ (newline_indent 0 @ ''}'')))))"
    by (simp add: json_ws_def)
  also have "\<dots> = map_option (Cons LBrace) (map_option ((@) (item_tokens kv))
      (map_option ((@) (concat (map (\<lambda>kv. Comma # item_tokens kv) kvs)))
         (lex (newline_indent 0 @ ''}''))))"
    by (simp only: lex_newline_indent lex_encode_item lex_more_items)
  also have "lex (newline_indent 0 @ ''}'') = Some [RBrace]"
    by (simp add: lex_newline_indent json_ws_def)
  finally show ?thesis by (simp add: manifest_tokens_def)
qed

lemma lex_json_dumps: "lex (json_dumps d) = Some (manifest_tokens (sort_key fst d))"
proof (cases "sort_key fst d")
  case Nil
  then have "d = []" by (metis length_sort list.size(3) length_0_conv)
  then show ?thesis by (simp add: json_dumps_def manifest_tokens_def json_ws_def)
next
  case (Cons kv kvs)
  then have "d \<noteq> []" by auto
  then show ?thesis
    using lex_items [of kv kvs] Cons by (simp add: json_dumps_def)
qed

lemma parse_more_elems:
  "parse_tokens (AfterElem k ys, acc) (concat (map (\<lambda>y. [Comma, TString y]) xs) @ RBracket # rest)
   = parse_tokens (AfterValue, acc @ [(k, StrList (ys @ xs))]) rest"
  by (induction xs arbitrary: ys) simp_all

lemma parse_value_tokens:
  "parse_tokens (BeforeValue k, acc) (value_tokens v @ rest)
   = parse_tokens (AfterValue, acc @ [(k, v)]) rest"
proof (cases v)
  case (Str s)
  then show ?thesis by (simp add: value_tokens_def)
next
  case (StrList xs)
  show ?thesis
  proof (cases xs)
    case Nil
    with StrList show ?thesis by (simp add: value_tokens_def)
  next
    case (Cons x ys)
    with StrList show ?thesis
      using parse_more_elems [of k "[x]" acc ys rest] by (simp add: value_tokens_def)
  qed
qed

lemma parse_item_tokens:
  "st = FirstKey \<or> st = NextKey \<Longrightarrow>
   parse_tokens (st, acc) (item_tokens kv @ rest) = parse_tokens (AfterValue, acc @ [kv]) rest"
  using parse_value_tokens [of "fst kv" acc "snd kv" rest]
  by (auto simp: item_tokens_def)

lemma parse_more_items:
  "parse_tokens (AfterValue, acc) (concat (map (\<lambda>kv. Comma # item_tokens kv) kvs) @ rest)
   = parse_tokens (AfterValue, acc @ kvs) rest"
proof (induction kvs arbitrary: acc)
  case Nil
  then show ?case by simp
next
  case (Cons kv kvs)
  have "parse_tokens (AfterValue, acc) (concat (map (\<lambda>kv. Comma # item_tokens kv) (kv # kvs)) @ rest)
      = parse_tokens (NextKey, acc) (item_tokens kv @ (concat (map (\<lambda>kv. Comma # item_tokens kv) kvs) @ rest))"
    by simp
  also have "\<dots> = parse_tokens (AfterValue, acc @ [kv]) (concat (map (\<lambda>kv. Comma # item_tokens kv) kvs) @ rest)"
    by (rule parse_item_tokens) simp
  also have "\<dots> = parse_tokens (AfterValue, (acc @ [kv]) @ kvs) rest"
    by (rule Cons.IH)
  finally show ?case by simp
qed

lemma parse_manifest_tokens: "parse_tokens (Start, []) (manifest_tokens d) = Some d"
proof (cases d)
  case Nil
  then show ?thesis by (simp add: manifest_tokens_def)
next
  case (Cons kv kvs)
  have "parse_tokens (Start, []) (manifest_tokens d)
      = parse_tokens (FirstKey, []) (item_tokens kv @ (concat (map (\<lambda>kv. Comma # item_tokens kv) kvs) @ [RBrace]))"
    using Cons by (simp add: manifest_tokens_def)
  also have "\<dots> = parse_tokens (AfterValue, [] @ [kv]) (concat (map (\<lambda>kv. Comma # item_tokens kv) kvs) @ [RBrace])"
    by (rule parse_item_tokens) simp
  also have "\<dots> = parse_tokens (AfterValue, ([] @ [kv]) @ kvs) [RBrace]"
    by (rule parse_more_items)
  finally show ?thesis using Cons by simp
qed

lemma json_loads_dumps: "json_loads (json_dumps d) = Some (sort_key fst d)"
  by (simp add: json_loads_def lex_json_dumps parse_manifest_tokens)

lemma sorted_manifest:
  "sort_key fst (manifest_dict name description version_number website_url)
   = [(''dependencies'', StrList [''BepInEx-BepInExPack-5.4.2100'']),
      (''description'', Str description),
      (''name'', Str name),
      (''version_number'', Str version_number),
      (''website_url'', Str website_url)]"
  by (simp add: manifest_dict_def)

subsection \<open>The file system\<close>

lemma map_of_filter_key:
  "map_of (filter (\<lambda>(k, v). P k) al) x = (if P x then map_of al x else None)"
  by (induction al) auto

lemma node_at_root [simp]: "node_at fs [] = Some Dir"
  by (simp add: node_at_def)

lemma node_at_fd_write:
  "node_at (fd_write fs q c) x = (if x = q \<and> q \<noteq> [] then Some (File c) else node_at fs x)"
  by (simp add: node_at_def fd_write_def update_conv')

lemma node_at_append:
  "node_at fs q = None \<Longrightarrow>
   node_at (fs @ [(q, n)]) x = (if x = q then Some n else node_at fs x)"
  by (auto simp: node_at_def map_add_def split: if_splits option.splits)

lemma node_at_remove:
  "node_at (filter (\<lambda>(k, n). \<not> prefix q k) fs) x
   = (if prefix q x \<and> x \<noteq> [] then None else node_at fs x)"
  by (simp add: node_at_def map_of_filter_key)

text \<open>Resolution only looks at which paths are directories.\<close>

lemma walk_to_mono:
  "walk_to fs cur p = Inr q \<Longrightarrow>
   (\<And>x. node_at fs x = Some Dir \<Longrightarrow> node_at fs' x = Some Dir) \<Longrightarrow>
   walk_to fs' cur p = Inr q"
proof (induction p arbitrary: cur)
  case Nil
  then show ?case by simp
next
  case (Cons c cs)
  from Cons.prems(1) have d: "node_at fs cur = Some Dir"
    by (auto split: option.splits node.splits)
  with Cons.prems(1)
  have "walk_to fs (if c = ''..'' then butlast cur else cur @ [c]) cs = Inr q"
    by simp
  then have "walk_to fs' (if c = ''..'' then butlast cur else cur @ [c]) cs = Inr q"
    using Cons.prems(2) by (rule Cons.IH)
  with Cons.prems(2) [OF d] show ?case by simp
qed

lemma resolve_mono:
  "resolve fs p = Inr q \<Longrightarrow>
   (\<And>x. node_at fs x = Some Dir \<Longrightarrow> node_at fs' x = Some Dir) \<Longrightarrow>
   resolve fs' p = Inr q"
  unfolding resolve_def by (rule walk_to_mono)

lemma walk_to_append:
  "walk_to fs cur (p1 @ p2) =
     (case walk_to fs cur p1 of Inl e \<Rightarrow> Inl e | Inr q \<Rightarrow> walk_to fs q p2)"
  by (induction p1 arbitrary: cur) (auto split: option.splits node.splits)

lemma walk_to_names:
  "walk_to fs cur p = Inr q \<Longrightarrow> set q \<subseteq> set cur \<union> (set p - {''..''})"
proof (induction p arbitrary: cur)
  case Nil
  then show ?case by simp
next
  case (Cons c cs)
  from Cons.prems have d: "node_at fs cur = Some Dir"
    by (auto split: option.splits node.splits)
  show ?case
  proof (cases "c = ''..''")
    case True
    with Cons.prems d have "walk_to fs (butlast cur) cs = Inr q" by simp
    from Cons.IH [OF this] have "set q \<subseteq> set (butlast cur) \<union> (set cs - {''..''})" .
    moreover have "set (butlast cur) \<subseteq> set cur" by (meson in_set_butlastD subsetI)
    ultimately show ?thesis by auto
  next
    case False
    with Cons.prems d have "walk_to fs (cur @ [c]) cs = Inr q" by simp
    from Cons.IH [OF this] False show ?thesis by auto
  qed
qed

text \<open>What the operations do to the nodes.\<close>

lemma stat_Inr:
  "stat fs p = Inr (q, n) \<longleftrightarrow> resolve fs p = Inr q \<and> node_at fs q = Some n"
  by (auto simp: stat_def split: sum.splits option.splits)

lemma open_write_Inr:
  "open_write fs p = Inr (q, fs') \<longleftrightarrow>
     resolve fs p = Inr q \<and> node_at fs q \<noteq> Some Dir \<and> node_at fs (butlast q) = Some Dir
     \<and> fs' = fd_write fs q (Bytes [])"
  by (auto simp: open_write_def split: sum.splits)

lemma fd_write_twice: "fd_write (fd_write fs q c) q c' = fd_write fs q c'"
  by (simp add: fd_write_def)

lemma write_file_Inr:
  "write_file fs p c = Inr fs' \<longleftrightarrow>
     (\<exists>q. resolve fs p = Inr q \<and> node_at fs q \<noteq> Some Dir \<and> node_at fs (butlast q) = Some Dir
        \<and> fs' = fd_write fs q c)"
proof (cases "open_write fs p")
  case (Inl e)
  then have "\<not> (\<exists>q. resolve fs p = Inr q \<and> node_at fs q \<noteq> Some Dir
      \<and> node_at fs (butlast q) = Some Dir)"
    by (auto simp: open_write_def split: sum.splits if_splits)
  with Inl show ?thesis by (auto simp: write_file_def)
next
  case (Inr r)
  obtain q fs1 where r: "r = (q, fs1)" by (cases r)
  with Inr have "resolve fs p = Inr q \<and> node_at fs q \<noteq> Some Dir
      \<and> node_at fs (butlast q) = Some Dir \<and> fs1 = fd_write fs q (Bytes [])"
    by (simp add: open_write_Inr)
  with Inr r show ?thesis by (auto simp: write_file_def fd_write_twice)
qed

lemma os_mkdir_Inr:
  "os_mkdir fs p = Inr fs' \<longleftrightarrow>
     (\<exists>q. resolve fs p = Inr q \<and> node_at fs q = None \<and> node_at fs (butlast q) = Some Dir
        \<and> fs' = fs @ [(q, Dir)])"
  by (auto simp: os_mkdir_def split: sum.splits)

lemma rmtree_Inr:
  "rmtree fs p = Inr fs' \<longleftrightarrow>
     (\<exists>q. stat fs p = Inr (q, Dir) \<and> fs' = filter (\<lambda>(k, n). \<not> prefix q k) fs)"
  by (auto simp: rmtree_def split: sum.splits prod.splits node.splits)

lemma mkdir_parents_False_Inr:
  "mkdir_parents False fs p = Inr fs' \<Longrightarrow>
   \<exists>fs0. os_mkdir fs0 p = Inr fs'"
  by (subst (asm) mkdir_parents.simps)
    (auto simp: mkdir_single_def split: sum.splits if_splits)

subsection \<open>The staging directory\<close>

lemma mkdir_gives_dir:
  assumes "mkdir_parents False fs p = Inr fs'"
  shows "\<exists>q. stat fs' p = Inr (q, Dir) \<and> q \<noteq> []"
proof -
  from mkdir_parents_False_Inr [OF assms] obtain fs0 where "os_mkdir fs0 p = Inr fs'" ..
  then obtain q where q: "resolve fs0 p = Inr q" "node_at fs0 q = None"
    "fs' = fs0 @ [(q, Dir)]"
    by (auto simp: os_mkdir_Inr)
  have n: "node_at fs' x = (if x = q then Some Dir else node_at fs0 x)" for x
    using q(2,3) by (simp add: node_at_append)
  have "resolve fs' p = Inr q"
    using q(1) by (rule resolve_mono) (simp add: n)
  moreover have "q \<noteq> []" using q(2) by auto
  ultimately show ?thesis by (auto simp: stat_Inr n)
qed

lemma staging_kept_by_write:
  assumes "stat fs t = Inr (q, Dir)" and "node_at fs qd \<noteq> Some Dir"
  shows "stat (fd_write fs qd c) t = Inr (q, Dir)"
proof -
  have dirs: "node_at (fd_write fs qd c) x = Some Dir" if "node_at fs x = Some Dir" for x
    using that assms(2) by (auto simp: node_at_fd_write)
  from assms(1) have "resolve fs t = Inr q" "node_at fs q = Some Dir"
    by (simp_all add: stat_Inr)
  then show ?thesis
    using resolve_mono [of fs t q "fd_write fs qd c"] dirs by (simp add: stat_Inr)
qed

lemma rmtree_removes:
  assumes "stat fs t = Inr (q, Dir)" and "q \<noteq> []"
  shows "\<exists>fs'. rmtree fs t = Inr fs' \<and> \<not> path_exists fs' t"
proof -
  let ?fs' = "filter (\<lambda>(k, n). \<not> prefix q k) fs"
  have r: "rmtree fs t = Inr ?fs'" using assms(1) by (simp add: rmtree_def)
  have "\<not> path_exists ?fs' t"
  proof
    assume "path_exists ?fs' t"
    then obtain x n where x: "resolve ?fs' t = Inr x" "node_at ?fs' x = Some n"
      by (auto simp: path_exists_def stat_def split: sum.splits option.splits)
    have "resolve fs t = Inr x"
      using x(1) by (rule resolve_mono) (auto simp: node_at_remove split: if_splits)
    with assms(1) have "x = q" by (simp add: stat_Inr)
    with x(2) assms(2) show False by (simp add: node_at_remove)
  qed
  with r show ?thesis by blast
qed

lemma shutil_copy_Inr:
  assumes "shutil_copy fs src dst = Inr fs'"
  shows "\<exists>dst' qd c. read_file fs src = Inr c \<and> resolve fs dst' = Inr qd
    \<and> (dst' = dst \<or> dst' = pjoin dst (path_name src) \<and> path_isdir fs dst)
    \<and> node_at fs qd \<noteq> Some Dir
    \<and> node_at fs (butlast qd) = Some Dir \<and> fs' = fd_write fs qd c"
proof -
  define dst' where "dst' = (if path_isdir fs dst then pjoin dst (path_name src) else dst)"
  from assms obtain c where c: "read_file fs src = Inr c" "write_file fs dst' c = Inr fs'"
    unfolding shutil_copy_def dst'_def [symmetric] Let_def
    by (auto split: sum.splits prod.splits if_splits)
  from c(2) obtain qd where "resolve fs dst' = Inr qd" "node_at fs qd \<noteq> Some Dir"
    "node_at fs (butlast qd) = Some Dir" "fs' = fd_write fs qd c"
    by (auto simp: write_file_Inr)
  moreover have "dst' = dst \<or> dst' = pjoin dst (path_name src) \<and> path_isdir fs dst"
    by (simp add: dst'_def)
  ultimately show ?thesis using c(1) by blast
qed

lemma copy_loop_staging:
  assumes "stat fs (temp_dir self) = Inr (q, Dir)" and "q \<noteq> []"
    and "copy_loop self specs fs = (r, fs')"
  shows "(r = None \<or> (\<exists>e. r = Some (Exc e))) \<and> stat fs' (temp_dir self) = Inr (q, Dir)
    \<or> r = Some (Exit 1) \<and> \<not> path_exists fs' (temp_dir self)"
  using assms
proof (induction specs arbitrary: fs)
  case Nil
  then show ?case by simp
next
  case (Cons s specs)
  show ?case
  proof (cases "path_exists fs (path s)")
    case True
    show ?thesis
    proof (cases "shutil_copy fs (path s) (pjoin (temp_dir self) (destination_name s))")
      case (Inl e)
      with True Cons.prems show ?thesis by auto
    next
      case (Inr fs1)
      from shutil_copy_Inr [OF Inr] obtain qd c where
        w: "node_at fs qd \<noteq> Some Dir" "fs1 = fd_write fs qd c"
        by blast
      have "stat fs1 (temp_dir self) = Inr (q, Dir)"
        unfolding w(2) using Cons.prems(1) w(1) by (rule staging_kept_by_write)
      moreover have "copy_loop self specs fs1 = (r, fs')"
        using Cons.prems(3) True Inr by simp
      ultimately show ?thesis using Cons.IH Cons.prems(2) by blast
    qed
  next
    case False
    show ?thesis
    proof (cases "required s")
      case True
      from rmtree_removes [OF Cons.prems(1,2)] obtain fs1 where
        "rmtree fs (temp_dir self) = Inr fs1" "\<not> path_exists fs1 (temp_dir self)"
        by blast
      with Cons.prems(3) False True show ?thesis by auto
    next
      case req: False
      with Cons.prems(3) False have "copy_loop self specs fs = (r, fs')" by simp
      with Cons.IH Cons.prems(1,2) show ?thesis by blast
    qed
  qed
qed

lemma copy_files_staging:
  assumes "stat fs (temp_dir self) = Inr (q, Dir)" and "q \<noteq> []"
    and "copy_files self specs fs = (r, fs')"
  shows "r = Inr () \<and> stat fs' (temp_dir self) = Inr (q, Dir)
    \<or> r = Inl (SysExit 1) \<and> \<not> path_exists fs' (temp_dir self)"
proof -
  obtain r0 fs0 where l: "copy_loop self specs fs = (r0, fs0)"
    by (cases "copy_loop self specs fs")
  from copy_loop_staging [OF assms(1,2) l]
  consider (ok) "r0 = None" "stat fs0 (temp_dir self) = Inr (q, Dir)"
    | (exc) e where "r0 = Some (Exc e)" "stat fs0 (temp_dir self) = Inr (q, Dir)"
    | (exit) "r0 = Some (Exit 1)" "\<not> path_exists fs0 (temp_dir self)"
    by blast
  then show ?thesis
  proof cases
    case ok
    with l assms(3) show ?thesis by (simp add: copy_files_def)
  next
    case exc
    from rmtree_removes [OF exc(2) assms(2)] obtain fs1 where
      "rmtree fs0 (temp_dir self) = Inr fs1" "\<not> path_exists fs1 (temp_dir self)"
      by blast
    with exc l assms(3) show ?thesis by (auto simp: copy_files_def)
  next
    case exit
    with l assms(3) show ?thesis by (auto simp: copy_files_def)
  qed
qed

lemma zip_files_staging:
  assumes "stat fs (temp_dir self) = Inr (q, Dir)" and "q \<noteq> []"
    and "zip_files self fs = (r, fs')"
  shows "(r = Inr () \<or> r = Inl (SysExit 1)) \<and> \<not> path_exists fs' (temp_dir self)"
proof (cases "open_write fs (zip_file_name self)")
  case (Inl e)
  from rmtree_removes [OF assms(1,2)] obtain fs1 where
    "rmtree fs (temp_dir self) = Inr fs1" "\<not> path_exists fs1 (temp_dir self)"
    by blast
  with Inl assms(3) show ?thesis by (auto simp: zip_files_def)
next
  case (Inr x)
  obtain qz fs1 where x: "x = (qz, fs1)" by (cases x)
  with Inr have o: "node_at fs qz \<noteq> Some Dir" "fs1 = fd_write fs qz (Bytes [])"
    by (simp_all add: open_write_Inr)
  let ?fs2 = "fd_write fs1 qz (Zip (walk_files fs1 (temp_dir self)))"
  have "?fs2 = fd_write fs qz (Zip (walk_files fs1 (temp_dir self)))"
    by (simp add: o(2) fd_write_twice)
  then have "stat ?fs2 (temp_dir self) = Inr (q, Dir)"
    using staging_kept_by_write [OF assms(1) o(1)] by simp
  from rmtree_removes [OF this assms(2)] obtain fs3 where
    "rmtree ?fs2 (temp_dir self) = Inr fs3" "\<not> path_exists fs3 (temp_dir self)"
    by blast
  with Inr x assms(3) show ?thesis by (auto simp: zip_files_def)
qed

lemma prepare_file_spec_staging:
  "prepare_file_spec w self fs = (Inr specs, fs1) \<Longrightarrow>
   \<exists>q. stat fs1 (temp_dir self) = Inr (q, Dir) \<and> q \<noteq> []"
  by (auto simp: prepare_file_spec_def split: sum.splits if_splits dest: mkdir_gives_dir)

lemma prepare_file_spec_abort:
  "prepare_file_spec w self fs = (Inl a, fs1) \<Longrightarrow> \<exists>e. a = Uncaught e"
  by (auto simp: prepare_file_spec_def split: sum.splits if_splits)


text \<open>The loop over the file list, cut at one of its files.\<close>

lemma copy_loop_append:
  "copy_loop self (pre @ rest) fs =
     (case copy_loop self pre fs of
        (None, fs') \<Rightarrow> copy_loop self rest fs'
      | (Some r, fs') \<Rightarrow> (Some r, fs'))"
proof (induction pre arbitrary: fs)
  case Nil
  show ?case by simp
next
  case (Cons s pre)
  show ?case
    by (simp add: Cons.IH split: sum.splits)
qed

lemma copy_loop_fails_at:
  assumes "copy_loop self pre fs = (None, fsk)"
    and "if path_exists fsk (path s)
         then \<exists>e. shutil_copy fsk (path s) (pjoin (temp_dir self) (destination_name s)) = Inl e
         else required s"
  shows "fst (copy_loop self (pre @ s # post) fs) \<noteq> None"
proof -
  have "fst (copy_loop self (s # post) fsk) \<noteq> None"
    using assms(2) by (auto split: sum.splits if_splits)
  then show ?thesis by (simp add: copy_loop_append assms(1))
qed

lemma copy_files_fails:
  "fst (copy_loop self specs fs) \<noteq> None \<Longrightarrow> fst (copy_files self specs fs) \<noteq> Inr ()"
  by (cases "copy_loop self specs fs")
    (auto simp: copy_files_def split: option.splits raised.splits sum.splits)

lemma copy_files_Inr:
  "copy_files self specs fs = (Inr u, fs') \<Longrightarrow> copy_loop self specs fs = (None, fs')"
  by (cases "copy_loop self specs fs")
    (auto simp: copy_files_def split: option.splits raised.splits sum.splits)

lemma zip_files_fails:
  "open_write fs (zip_file_name self) = Inl e \<Longrightarrow> fst (zip_files self fs) \<noteq> Inr ()"
  by (auto simp: zip_files_def split: sum.splits)

lemma process_Inr:
  assumes "prepare_file_spec w self fs = (Inr specs, fs1)"
    and "fst (process w self fs) = Inr ()"
  shows "\<exists>fs2. copy_loop self specs fs1 = (None, fs2) \<and> fst (zip_files self fs2) = Inr ()"
proof -
  obtain r2 fs2 where c: "copy_files self specs fs1 = (r2, fs2)"
    by (cases "copy_files self specs fs1")
  with assms have "r2 = Inr ()" "fst (zip_files self fs2) = Inr ()"
    by (auto simp: process_def split: sum.splits)
  with c copy_files_Inr [of self specs fs1 "()" fs2] show ?thesis by blast
qed

subsection \<open>The manifest file\<close>

lemma read_after_write:
  assumes "write_file fs p c = Inr fs'"
  shows "read_file fs' p = Inr c"
proof -
  from assms obtain q where q: "resolve fs p = Inr q" "node_at fs q \<noteq> Some Dir"
    "fs' = fd_write fs q c"
    by (auto simp: write_file_Inr)
  have "q \<noteq> []" using q(2) by auto
  have "resolve fs' p = Inr q"
    using q(1) by (rule resolve_mono) (use q(2,3) in \<open>auto simp: node_at_fd_write\<close>)
  moreover have "node_at fs' q = Some (File c)"
    using \<open>q \<noteq> []\<close> by (simp add: q(3) node_at_fd_write)
  ultimately show ?thesis by (simp add: read_file_def stat_def)
qed

lemma build_manifest_Inr:
  assumes "build_manifest w fs = (Inr u, fs')"
  shows "\<exists>name description version_number website_url c1 c2.
    get_mod_name w fs \<lparr>csproj_root = None\<rparr> = Inr (name, c1)
    \<and> get_description w fs = Inr description
    \<and> get_dll_version w fs c1 = Inr (version_number, c2)
    \<and> get_github_url (git_remote w) = Inr website_url
    \<and> write_file fs (pjoin (project_root w) ''manifest.json'')
         (Bytes (json_dumps (manifest_dict name description version_number website_url)))
       = Inr fs'"
  using assms unfolding build_manifest_def
  by (auto split: sum.splits prod.splits)

lemma sorted_manifest_keys:
  "sorted (map fst
     [(''dependencies'', a), (''description'', b), (''name'', c), (''version_number'', d),
      (''website_url'', e)])"
  by simp

text \<open>
  C5. When \<^verbatim>\<open>build_manifest\<close> returns, the file \<^verbatim>\<open>manifest.json\<close> holds the text that
  \<^verbatim>\<open>json.dumps\<close> makes of the record of this run (the mod name, the description, the
  version and the URL as the getters returned them, and the one dependency). Parsing
  that text gives the five items with their keys in ascending order, and as a
  dictionary they are the record that was written.
\<close>

theorem manifest_round_trip:
  assumes "build_manifest w fs = (Inr u, fs')"
  shows "\<exists>name description version_number website_url c1 c2 text items.
    get_mod_name w fs \<lparr>csproj_root = None\<rparr> = Inr (name, c1)
    \<and> get_description w fs = Inr description
    \<and> get_dll_version w fs c1 = Inr (version_number, c2)
    \<and> get_github_url (git_remote w) = Inr website_url
    \<and> read_file fs' (pjoin (project_root w) ''manifest.json'') = Inr (Bytes text)
    \<and> text = json_dumps (manifest_dict name description version_number website_url)
    \<and> json_loads text = Some items
    \<and> items = [(''dependencies'', StrList [''BepInEx-BepInExPack-5.4.2100'']),
                (''description'', Str description),
                (''name'', Str name),
                (''version_number'', Str version_number),
                (''website_url'', Str website_url)]
    \<and> sorted (map fst items)
    \<and> map_of items = map_of (manifest_dict name description version_number website_url)"
proof -
  from build_manifest_Inr [OF assms] obtain name description version_number website_url c1 c2
    where g: "get_mod_name w fs \<lparr>csproj_root = None\<rparr> = Inr (name, c1)"
      "get_description w fs = Inr description"
      "get_dll_version w fs c1 = Inr (version_number, c2)"
      "get_github_url (git_remote w) = Inr website_url"
      and wr: "write_file fs (pjoin (project_root w) ''manifest.json'')
         (Bytes (json_dumps (manifest_dict name description version_number website_url)))
       = Inr fs'"
    by blast
  let ?d = "manifest_dict name description version_number website_url"
  let ?items = "[(''dependencies'', StrList [''BepInEx-BepInExPack-5.4.2100'']),
                (''description'', Str description),
                (''name'', Str name),
                (''version_number'', Str version_number),
                (''website_url'', Str website_url)]"
  have "read_file fs' (pjoin (project_root w) ''manifest.json'') = Inr (Bytes (json_dumps ?d))"
    using wr by (rule read_after_write)
  moreover have "json_loads (json_dumps ?d) = Some ?items"
    by (simp only: json_loads_dumps sorted_manifest)
  moreover have "sorted (map fst ?items)" by (rule sorted_manifest_keys)
  moreover have "map_of ?items = map_of ?d"
    by (rule ext) (simp add: manifest_dict_def)
  ultimately show ?thesis using g by blast
qed

subsection \<open>From the project file to the names\<close>

lemma split_slash_flat: "CHR ''/'' \<notin> set s \<Longrightarrow> split_slash s = [s]"
  by (induction s) auto

lemma parts_flat:
  "CHR ''/'' \<notin> set s \<Longrightarrow> s \<noteq> [] \<Longrightarrow> s \<noteq> ''.'' \<Longrightarrow> parts s = [s]"
  by (simp add: parts_def split_slash_flat)

lemma pjoin_flat:
  assumes "CHR ''/'' \<notin> set s" "s \<noteq> []" "s \<noteq> ''.''"
  shows "pjoin d s = d @ [s]"
proof -
  have "\<not> str_startswith s ''/''"
    using assms(1,2) by (cases s) (auto simp: str_startswith_def)
  then show ?thesis using assms by (simp add: pjoin_def parts_flat)
qed

lemma load_csproj_state:
  "load_csproj w fs self p = Inr (root, self') \<Longrightarrow> self' = \<lparr>csproj_root = Some root\<rparr>"
  using load_csproj_cases [of w fs self p] by auto

lemma new_file_packager_eq:
  assumes load: "load_csproj w fs \<lparr>csproj_root = None\<rparr> (csproj_path w) = Inr (root, c)"
    and a: "find root (''PropertyGroup'', ''AssemblyName'') = Some ea" "elem_text ea = Some a"
      "a \<noteq> []"
    and p: "find root (''PropertyGroup'', ''Product'') = Some ep" "elem_text ep = Some p"
      "p \<noteq> []"
    and v: "find root (''PropertyGroup'', ''Version'') = Some ev" "elem_text ev = Some v"
      "v \<noteq> []"
  shows "new_file_packager w fs = Inr (make_packager w a p v)"
proof -
  have c: "c = \<lparr>csproj_root = Some root\<rparr>" using load by (rule load_csproj_state)
  have cached: "load_csproj w fs c (csproj_path w) = Inr (root, c)"
    unfolding c by (rule load_csproj_cached)
  have n0: "get_dll_name w fs \<lparr>csproj_root = None\<rparr> = Inr (a @ ''.dll'', c)"
    using retreive_ok [OF load a] by (simp add: get_dll_name_def)
  have n1: "get_dll_path w fs c
      = Inr (pjoin (project_root w @ DLL_SOURCE_FOLDER) (a @ ''.dll''), c)"
    using retreive_ok [OF cached a] by (simp add: get_dll_path_def get_dll_name_def)
  have n2: "get_mod_name w fs c = Inr (p, c)"
    using retreive_ok [OF cached p] by (simp add: get_mod_name_def)
  have n3: "get_dll_version w fs c = Inr (v, c)"
    using retreive_ok [OF cached v] by (simp add: get_dll_version_def)
  show ?thesis
    by (simp add: new_file_packager_def n0 n1 n2 n3 make_packager_def)
qed


subsection \<open>Paths without \<^verbatim>\<open>..\<close> in a tree\<close>

lemma wf_fs_tree: "wf_fs fs \<Longrightarrow> tree fs"
proof -
  assume wf: "wf_fs fs"
  have "node_at fs (butlast k) = Some Dir" if "node_at fs k \<noteq> None" for k
  proof (cases "k = []")
    case True
    then show ?thesis by simp
  next
    case False
    with that obtain n where "map_of fs k = Some n" by (auto simp: node_at_def)
    then have "(k, n) \<in> set fs" by (rule map_of_SomeD)
    with wf show ?thesis by (auto simp: wf_fs_def list_all_iff)
  qed
  then show ?thesis by (simp add: tree_def)
qed

lemma wf_fs_names: "wf_fs fs \<Longrightarrow> names_ok fs"
  by (auto simp: wf_fs_def names_ok_def list_all_iff)

lemma wf_fs_distinct: "wf_fs fs \<Longrightarrow> distinct (map fst fs)"
  by (simp add: wf_fs_def)

text \<open>Resolution of a path without \<^verbatim>\<open>..\<close>.\<close>

lemma walk_to_plain:
  "''..'' \<notin> set p \<Longrightarrow> walk_to fs cur p = Inr q \<Longrightarrow> q = cur @ p"
proof (induction p arbitrary: cur)
  case Nil
  then show ?case by simp
next
  case (Cons c cs)
  from Cons.prems(1) have c: "c \<noteq> ''..''" "''..'' \<notin> set cs" by auto
  from Cons.prems(2) have "node_at fs cur = Some Dir"
    by (auto split: option.splits node.splits)
  with Cons.prems(2) c(1) have "walk_to fs (cur @ [c]) cs = Inr q" by simp
  from Cons.IH [OF c(2) this] show ?case by simp
qed

lemma resolve_plain: "''..'' \<notin> set p \<Longrightarrow> resolve fs p = Inr q \<Longrightarrow> q = p"
  unfolding resolve_def using walk_to_plain [of p fs "[]" q] by simp

lemma resolve_step:
  assumes "resolve fs d = Inr d" and "c \<noteq> ''..''"
  shows "resolve fs (d @ [c]) =
    (case node_at fs d of
       None \<Rightarrow> Inl FileNotFoundError
     | Some (File x) \<Rightarrow> Inl NotADirectoryError
     | Some Dir \<Rightarrow> Inr (d @ [c]))"
  using assms unfolding resolve_def
  by (simp add: walk_to_append split: option.splits node.splits)

lemma resolve_dir:
  assumes "tree fs" and "''..'' \<notin> set p" and "node_at fs p = Some Dir"
  shows "resolve fs p = Inr p"
  using assms(2,3)
proof (induction p rule: rev_induct)
  case Nil
  then show ?case by (simp add: resolve_def)
next
  case (snoc c ps)
  from snoc.prems(2) assms(1) have "node_at fs (butlast (ps @ [c])) = Some Dir"
    unfolding tree_def by (metis option.distinct(1))
  then have d: "node_at fs ps = Some Dir" by simp
  from snoc.prems(1) have c: "c \<noteq> ''..''" "''..'' \<notin> set ps" by auto
  from snoc.IH [OF c(2) d] have "resolve fs ps = Inr ps" .
  from resolve_step [OF this c(1)] d show ?case by simp
qed

lemma resolve_in_dir:
  assumes "tree fs" and "''..'' \<notin> set d" and "node_at fs d = Some Dir" and "c \<noteq> ''..''"
  shows "resolve fs (d @ [c]) = Inr (d @ [c])"
  using resolve_step [OF resolve_dir [OF assms(1,2,3)] assms(4)] assms(3) by simp

lemma stat_in_dir:
  assumes "tree fs" and "''..'' \<notin> set d" and "node_at fs d = Some Dir" and "c \<noteq> ''..''"
  shows "stat fs (d @ [c]) =
    (case node_at fs (d @ [c]) of None \<Rightarrow> Inl FileNotFoundError | Some n \<Rightarrow> Inr (d @ [c], n))"
  by (simp add: stat_def resolve_in_dir [OF assms])

lemma stat_plain:
  assumes "tree fs" and "''..'' \<notin> set p"
  shows "stat fs p = Inr (q, n) \<longleftrightarrow> q = p \<and> node_at fs p = Some n"
proof
  assume "stat fs p = Inr (q, n)"
  then have "resolve fs p = Inr q" "node_at fs q = Some n" by (simp_all add: stat_Inr)
  with resolve_plain [OF assms(2)] show "q = p \<and> node_at fs p = Some n" by auto
next
  assume h: "q = p \<and> node_at fs p = Some n"
  have "resolve fs p = Inr p"
  proof (cases p rule: rev_cases)
    case Nil
    then show ?thesis by (simp add: resolve_def)
  next
    case (snoc ps c)
    with h assms(1) have "node_at fs (butlast (ps @ [c])) = Some Dir"
      unfolding tree_def by (metis option.distinct(1))
    then have d: "node_at fs ps = Some Dir" by simp
    from assms(2) snoc have c: "c \<noteq> ''..''" "''..'' \<notin> set ps" by auto
    from resolve_in_dir [OF assms(1) c(2) d c(1)] snoc show ?thesis by simp
  qed
  with h show "stat fs p = Inr (q, n)" by (simp add: stat_Inr)
qed

lemma stat_plain_Some:
  "tree fs \<Longrightarrow> ''..'' \<notin> set p \<Longrightarrow> node_at fs p = Some n \<Longrightarrow> stat fs p = Inr (p, n)"
  by (simp add: stat_plain)

lemma stat_plain_None:
  assumes "tree fs" and "''..'' \<notin> set p" and "node_at fs p = None"
  shows "\<exists>e. stat fs p = Inl e"
proof (cases "stat fs p")
  case (Inl e)
  then show ?thesis by blast
next
  case (Inr r)
  obtain q n where "r = (q, n)" by (cases r)
  with Inr stat_plain [OF assms(1,2), of q n] assms(3) show ?thesis by simp
qed

lemma path_exists_plain:
  assumes "tree fs" and "''..'' \<notin> set p"
  shows "path_exists fs p \<longleftrightarrow> node_at fs p \<noteq> None"
proof (cases "node_at fs p")
  case None
  with stat_plain_None [OF assms None] show ?thesis by (auto simp: path_exists_def)
next
  case (Some n)
  with stat_plain_Some [OF assms Some] show ?thesis by (simp add: path_exists_def)
qed

lemma path_isdir_plain:
  assumes "tree fs" and "''..'' \<notin> set p"
  shows "path_isdir fs p \<longleftrightarrow> node_at fs p = Some Dir"
proof (cases "node_at fs p")
  case None
  with stat_plain_None [OF assms None] show ?thesis by (auto simp: path_isdir_def)
next
  case (Some n)
  with stat_plain_Some [OF assms Some] show ?thesis
    by (cases n) (simp_all add: path_isdir_def)
qed

lemma read_file_plain:
  assumes "tree fs" and "''..'' \<notin> set p"
  shows "read_file fs p = Inr c \<longleftrightarrow> node_at fs p = Some (File c)"
proof (cases "node_at fs p")
  case None
  with stat_plain_None [OF assms None] show ?thesis by (auto simp: read_file_def)
next
  case (Some n)
  with stat_plain_Some [OF assms Some] show ?thesis
    by (cases n) (simp_all add: read_file_def)
qed

subsection \<open>The operations keep the invariants\<close>

text \<open>The operations keep the invariants.\<close>

lemma tree_fd_write:
  assumes "tree fs" and "node_at fs qd \<noteq> Some Dir" and "node_at fs (butlast qd) = Some Dir"
  shows "tree (fd_write fs qd c)"
  unfolding tree_def
proof (intro allI impI)
  fix k
  assume k: "node_at (fd_write fs qd c) k \<noteq> None"
  have "butlast k \<noteq> qd \<or> qd = []"
  proof (rule ccontr)
    assume "\<not> (butlast k \<noteq> qd \<or> qd = [])"
    then have b: "butlast k = qd" "qd \<noteq> []" by auto
    then have "k \<noteq> qd" by (metis butlast.simps(1) length_butlast diff_less length_greater_0_conv less_numeral_extra(1) nat_neq_iff)
    with k have "node_at fs k \<noteq> None" by (simp add: node_at_fd_write)
    with assms(1) have "node_at fs (butlast k) = Some Dir" by (simp add: tree_def)
    with b assms(2) show False by simp
  qed
  moreover have "node_at fs (butlast k) = Some Dir"
  proof (cases "k = qd \<and> qd \<noteq> []")
    case True
    with assms(3) show ?thesis by simp
  next
    case False
    with k have "node_at fs k \<noteq> None" by (auto simp: node_at_fd_write split: if_splits)
    with assms(1) show ?thesis by (simp add: tree_def)
  qed
  ultimately show "node_at (fd_write fs qd c) (butlast k) = Some Dir"
    by (auto simp: node_at_fd_write)
qed

lemma tree_append_dir:
  assumes "tree fs" and "node_at fs q = None" and "node_at fs (butlast q) = Some Dir"
  shows "tree (fs @ [(q, Dir)])"
  unfolding tree_def
proof (intro allI impI)
  fix k
  assume "node_at (fs @ [(q, Dir)]) k \<noteq> None"
  then have "k = q \<or> node_at fs k \<noteq> None"
    by (auto simp: node_at_append [OF assms(2)] split: if_splits)
  then have "node_at fs (butlast k) = Some Dir"
    using assms(1,3) by (auto simp: tree_def)
  then show "node_at (fs @ [(q, Dir)]) (butlast k) = Some Dir"
    using assms(2) by (auto simp: node_at_append [OF assms(2)])
qed

lemma tree_remove:
  assumes "tree fs"
  shows "tree (filter (\<lambda>(k, n). \<not> prefix q k) fs)"
  unfolding tree_def
proof (intro allI impI)
  fix k
  assume k: "node_at (filter (\<lambda>(k, n). \<not> prefix q k) fs) k \<noteq> None"
  then have keep: "\<not> (prefix q k \<and> k \<noteq> [])" and "node_at fs k \<noteq> None"
    by (auto simp: node_at_remove split: if_splits)
  with assms have d: "node_at fs (butlast k) = Some Dir" by (simp add: tree_def)
  have "\<not> (prefix q (butlast k) \<and> butlast k \<noteq> [])"
  proof
    assume h: "prefix q (butlast k) \<and> butlast k \<noteq> []"
    then have "k \<noteq> []" by auto
    moreover have "prefix (butlast k) k" by (simp add: prefixeq_butlast)
    ultimately show False using h keep by (meson prefix_order.trans)
  qed
  with d show "node_at (filter (\<lambda>(k, n). \<not> prefix q k) fs) (butlast k) = Some Dir"
    by (simp add: node_at_remove)
qed

lemma keys_fd_write: "fst ` set (fd_write fs q c) = insert q (fst ` set fs)"
proof -
  have "fst ` set (fd_write fs q c) = dom (map_of (AList.update q (File c) fs))"
    by (simp add: fd_write_def dom_map_of_conv_image_fst)
  also have "\<dots> = insert q (dom (map_of fs))" by (simp add: update_conv')
  finally show ?thesis by (simp add: dom_map_of_conv_image_fst)
qed

lemma names_ok_fd_write:
  "names_ok fs \<Longrightarrow> list_all proper_name qd \<Longrightarrow> names_ok (fd_write fs qd c)"
  by (simp add: names_ok_def keys_fd_write)

lemma names_ok_append:
  "names_ok fs \<Longrightarrow> list_all proper_name q \<Longrightarrow> names_ok (fs @ [(q, n)])"
  by (auto simp: names_ok_def)

lemma names_ok_remove: "names_ok fs \<Longrightarrow> names_ok (filter P fs)"
  by (auto simp: names_ok_def)

lemma distinct_fd_write: "distinct (map fst fs) \<Longrightarrow> distinct (map fst (fd_write fs q c))"
  by (simp add: fd_write_def distinct_update)

lemma absent_key: "node_at fs q = None \<Longrightarrow> q \<notin> fst ` set fs"
  by (auto simp: node_at_def map_of_eq_None_iff split: if_splits)

lemma distinct_append_dir:
  "distinct (map fst fs) \<Longrightarrow> node_at fs q = None \<Longrightarrow> distinct (map fst (fs @ [(q, n)]))"
  using absent_key [of fs q] by auto

lemma distinct_remove: "distinct (map fst fs) \<Longrightarrow> distinct (map fst (filter P fs))"
  by (rule distinct_map_filter)

lemma flat_below_fd_write:
  assumes "flat_below t fs" and "node_at fs (butlast qd) = Some Dir"
  shows "flat_below t (fd_write fs qd c)"
  unfolding flat_below_def
proof (intro allI impI)
  fix k
  assume k: "strict_prefix t k \<and> node_at (fd_write fs qd c) k \<noteq> None"
  show "(\<exists>c'. node_at (fd_write fs qd c) k = Some (File c')) \<and> butlast k = t"
  proof (cases "k = qd")
    case True
    with k have ne: "qd \<noteq> []" by auto
    have "butlast qd = t"
    proof (rule ccontr)
      assume n: "butlast qd \<noteq> t"
      from k True have "prefix t (butlast qd)"
        by (metis ne append_butlast_last_id prefix_snoc strict_prefix_def)
      with n have "strict_prefix t (butlast qd)" by (simp add: strict_prefix_def)
      with assms have "\<exists>c. node_at fs (butlast qd) = Some (File c)"
        unfolding flat_below_def by (metis option.distinct(1))
      with assms(2) show False by simp
    qed
    with True ne show ?thesis by (simp add: node_at_fd_write)
  next
    case False
    with k have "strict_prefix t k \<and> node_at fs k \<noteq> None" by (simp add: node_at_fd_write)
    with assms(1) False show ?thesis by (simp add: flat_below_def node_at_fd_write)
  qed
qed

text \<open>The components of the paths the script builds.\<close>

lemma split_slash_no_slash: "x \<in> set (split_slash s) \<Longrightarrow> CHR ''/'' \<notin> set x"
proof (induction s arbitrary: x)
  case Nil
  then show ?case by simp
next
  case (Cons c cs)
  show ?case
  proof (cases "c = CHR ''/''")
    case True
    with Cons show ?thesis by auto
  next
    case False
    obtain y ys where s: "split_slash cs = y # ys"
      by (cases "split_slash cs") (cases cs, auto split: if_splits list.splits)
    with False Cons.prems have "x = c # y \<or> x \<in> set ys" by simp
    with Cons.IH [of y] Cons.IH [of x] s False show ?thesis by auto
  qed
qed

lemma parts_names: "c \<in> set (parts s) \<Longrightarrow> c = ''..'' \<or> proper_name c"
  using split_slash_no_slash [of c s] by (auto simp: parts_def proper_name_def)

lemma pjoin_names:
  assumes "\<forall>c \<in> set p. c = ''..'' \<or> proper_name c"
  shows "\<forall>c \<in> set (pjoin p s). c = ''..'' \<or> proper_name c"
  using assms parts_names [of _ s] by (auto simp: pjoin_def)

lemma resolve_names:
  assumes "resolve fs p = Inr q" and "\<forall>c \<in> set p. c = ''..'' \<or> proper_name c"
  shows "list_all proper_name q"
proof -
  from walk_to_names [of fs "[]" p q] assms(1) have "set q \<subseteq> set p - {''..''}"
    by (simp add: resolve_def)
  with assms(2) show ?thesis by (auto simp: list_all_iff)
qed

lemma digit_not_slash: "digit k \<noteq> CHR ''/''"
proof -
  have "k mod 10 < length ''0123456789''" by simp
  then have "digit k \<in> set ''0123456789''" unfolding digit_def by (rule nth_mem)
  then show ?thesis by auto
qed

lemma decimal_no_slash: "CHR ''/'' \<notin> set (decimal n)"
proof (induction n rule: decimal.induct)
  case (1 n)
  show ?case
  proof (cases "n < 10")
    case True
    then show ?thesis using digit_not_slash [of n] by (subst decimal.simps) auto
  next
    case False
    with 1 show ?thesis using digit_not_slash [of n] by (subst decimal.simps) auto
  qed
qed

lemma strftime_no_slash: "CHR ''/'' \<notin> set (strftime t)"
  by (simp add: strftime_def digits2_def decimal_no_slash)

lemma staging_name_proper: "proper_name (''temp_package_'' @ strftime t)"
  using strftime_no_slash [of t] by (simp add: proper_name_def)

subsection \<open>The preparation of the staging directory\<close>

lemma mkdir_parents_False_cases:
  "mkdir_parents False fs p = Inr fs' \<Longrightarrow>
   os_mkdir fs p = Inr fs' \<or> os_mkdir fs p = Inl FileNotFoundError"
  by (subst (asm) mkdir_parents.simps) (auto split: sum.splits if_splits)

lemma mkdir_parents_direct: "os_mkdir fs p = Inr fs' \<Longrightarrow> mkdir_parents e fs p = Inr fs'"
  by (subst mkdir_parents.simps) simp

lemma resolve_existing:
  assumes "tree fs" and "''..'' \<notin> set p" and "node_at fs p \<noteq> None"
  shows "resolve fs p = Inr p"
proof -
  from assms(3) obtain n where "node_at fs p = Some n" by auto
  from stat_plain_Some [OF assms(1,2) this] show ?thesis by (simp add: stat_Inr)
qed

lemma os_mkdir_in_dir:
  assumes "tree fs" and "''..'' \<notin> set d" and "c \<noteq> ''..''" and "node_at fs d = Some Dir"
    and "node_at fs (d @ [c]) = None"
  shows "os_mkdir fs (d @ [c]) = Inr (fs @ [(d @ [c], Dir)])"
  using resolve_in_dir [OF assms(1,2,4,3)] assms(4,5) by (simp add: os_mkdir_def)

lemma os_mkdir_in_file:
  assumes "tree fs" and "''..'' \<notin> set d" and "c \<noteq> ''..''" and "node_at fs d = Some (File x)"
  shows "os_mkdir fs (d @ [c]) = Inl NotADirectoryError"
proof -
  have "resolve fs d = Inr d" using assms(1,2,4) by (intro resolve_existing) simp_all
  from resolve_step [OF this assms(3)] assms(4) show ?thesis by (simp add: os_mkdir_def)
qed

lemma tree_below_absent:
  assumes "tree fs" and "node_at fs t = None"
  shows "prefix t k \<Longrightarrow> node_at fs k = None"
proof (induction k rule: rev_induct)
  case Nil
  with assms(2) show ?case by simp
next
  case (snoc c ks)
  show ?case
  proof (cases "t = ks @ [c]")
    case True
    with assms(2) show ?thesis by simp
  next
    case False
    with snoc.prems have "prefix t ks" by (simp add: prefix_snoc)
    with snoc.IH have "node_at fs ks = None" by simp
    with assms(1) show ?thesis unfolding tree_def by (metis butlast_snoc option.distinct(1))
  qed
qed

text \<open>
  The first step of \<^verbatim>\<open>prepare_file_spec\<close>, for a path in a directory that exists.
\<close>

lemma ensure_dir:
  assumes inv: "tree fs" "names_ok fs" "distinct (map fst fs)"
    and d: "list_all proper_name (d @ [c])" "node_at fs d = Some Dir"
    and run: "(if \<not> path_exists fs (d @ [c]) then mkdir_parents False fs (d @ [c]) else Inr fs)
      = Inr fs1"
  shows "tree fs1 \<and> names_ok fs1 \<and> distinct (map fst fs1)
    \<and> node_at fs1 (d @ [c]) \<noteq> None
    \<and> (\<forall>k. k \<noteq> d @ [c] \<longrightarrow> node_at fs1 k = node_at fs k)"
proof -
  from d(1) have plain: "''..'' \<notin> set d" "c \<noteq> ''..''" "''..'' \<notin> set (d @ [c])"
    by (auto simp: list_all_iff proper_name_def)
  show ?thesis
  proof (cases "node_at fs (d @ [c])")
    case None
    then have "\<not> path_exists fs (d @ [c])"
      by (simp add: path_exists_plain [OF inv(1) plain(3)])
    moreover have o: "os_mkdir fs (d @ [c]) = Inr (fs @ [(d @ [c], Dir)])"
      using inv(1) plain(1,2) d(2) None by (rule os_mkdir_in_dir)
    ultimately have fs1: "fs1 = fs @ [(d @ [c], Dir)]"
      using run mkdir_parents_direct [OF o] by simp
    have "node_at fs (butlast (d @ [c])) = Some Dir" using d(2) by simp
    then have "tree fs1" unfolding fs1 using inv(1) None by (intro tree_append_dir)
    moreover have "names_ok fs1" unfolding fs1 using inv(2) d(1) by (rule names_ok_append)
    moreover have "distinct (map fst fs1)"
      unfolding fs1 using inv(3) None by (rule distinct_append_dir)
    ultimately show ?thesis by (simp add: fs1 node_at_append [OF None])
  next
    case (Some n)
    then have "path_exists fs (d @ [c])"
      by (simp add: path_exists_plain [OF inv(1) plain(3)])
    with run have "fs1 = fs" by simp
    with inv Some show ?thesis by simp
  qed
qed

text \<open>
  The second and third step: a directory \<open>d @ [c]\<close> is removed if it is there and made
  anew.
\<close>

lemma fresh_dir:
  assumes inv: "tree fs" "names_ok fs" "distinct (map fst fs)"
    and d: "list_all proper_name (d @ [c])" "node_at fs d \<noteq> None"
    and rm: "(if path_exists fs (d @ [c]) then rmtree fs (d @ [c]) else Inr fs) = Inr fs2"
    and mk: "mkdir_parents False fs2 (d @ [c]) = Inr fs3"
  shows "tree fs3 \<and> names_ok fs3 \<and> distinct (map fst fs3)
    \<and> node_at fs3 d = Some Dir \<and> node_at fs3 (d @ [c]) = Some Dir
    \<and> (\<forall>k. strict_prefix (d @ [c]) k \<longrightarrow> node_at fs3 k = None)
    \<and> (\<forall>k. \<not> prefix (d @ [c]) k \<longrightarrow> node_at fs3 k = node_at fs k)"
proof -
  let ?t = "d @ [c]"
  from d(1) have plain: "''..'' \<notin> set d" "c \<noteq> ''..''" "''..'' \<notin> set ?t"
    by (auto simp: list_all_iff proper_name_def)
  have two: "tree fs2 \<and> names_ok fs2 \<and> distinct (map fst fs2)
      \<and> (\<forall>k. prefix ?t k \<longrightarrow> node_at fs2 k = None)
      \<and> (\<forall>k. \<not> prefix ?t k \<longrightarrow> node_at fs2 k = node_at fs k)"
  proof (cases "node_at fs ?t")
    case None
    then have "\<not> path_exists fs ?t" by (simp add: path_exists_plain [OF inv(1) plain(3)])
    with rm have "fs2 = fs" by simp
    with inv tree_below_absent [OF inv(1) None] show ?thesis by simp
  next
    case (Some n)
    then have "path_exists fs ?t" by (simp add: path_exists_plain [OF inv(1) plain(3)])
    with rm have r: "rmtree fs ?t = Inr fs2" by simp
    from stat_plain_Some [OF inv(1) plain(3) Some] r
    have fs2: "fs2 = filter (\<lambda>(k, n). \<not> prefix ?t k) fs"
      by (cases n) (simp_all add: rmtree_def)
    have "tree fs2" unfolding fs2 using inv(1) by (rule tree_remove)
    moreover have "names_ok fs2" unfolding fs2 using inv(2) by (rule names_ok_remove)
    moreover have "distinct (map fst fs2)" unfolding fs2 using inv(3) by (rule distinct_remove)
    ultimately show ?thesis by (auto simp: fs2 node_at_remove)
  qed
  then have inv2: "tree fs2" "names_ok fs2" "distinct (map fst fs2)"
    and gone: "\<And>k. prefix ?t k \<Longrightarrow> node_at fs2 k = None"
    and kept: "\<And>k. \<not> prefix ?t k \<Longrightarrow> node_at fs2 k = node_at fs k"
    by auto
  have absent: "node_at fs2 ?t = None" by (rule gone) simp
  have "\<not> prefix ?t d" by (simp add: prefix_def)
  then have d2: "node_at fs2 d = node_at fs d" by (rule kept)
  have dir: "node_at fs2 d = Some Dir"
  proof (rule ccontr)
    assume n: "node_at fs2 d \<noteq> Some Dir"
    with d(2) d2 obtain x where "node_at fs2 d = Some (File x)"
      by (cases "node_at fs2 d") (simp, metis node.exhaust)
    from os_mkdir_in_file [OF inv2(1) plain(1,2) this] mkdir_parents_False_cases [OF mk]
    show False by simp
  qed
  from os_mkdir_in_dir [OF inv2(1) plain(1,2) dir absent] mkdir_parents_False_cases [OF mk]
  have fs3: "fs3 = fs2 @ [(?t, Dir)]" by simp
  have "node_at fs2 (butlast ?t) = Some Dir" using dir by simp
  then have "tree fs3" unfolding fs3 using inv2(1) absent by (intro tree_append_dir)
  moreover have "names_ok fs3" unfolding fs3 using inv2(2) d(1) by (rule names_ok_append)
  moreover have "distinct (map fst fs3)"
    unfolding fs3 using inv2(3) absent by (rule distinct_append_dir)
  moreover have "node_at fs3 d = Some Dir" using dir by (simp add: fs3 node_at_append [OF absent])
  moreover have "node_at fs3 ?t = Some Dir" by (simp add: fs3 node_at_append [OF absent])
  moreover have "node_at fs3 k = None" if "strict_prefix ?t k" for k
    using that gone [of k] by (auto simp: fs3 node_at_append [OF absent] strict_prefix_def)
  moreover have "node_at fs3 k = node_at fs k" if "\<not> prefix ?t k" for k
    using that kept [of k] by (auto simp: fs3 node_at_append [OF absent])
  ultimately show ?thesis by blast
qed

subsection \<open>The archive\<close>

lemma path_ok_proper: "list_all proper_name p \<Longrightarrow> path_ok p"
  by (auto simp: path_ok_def list_all_iff)

lemma path_ok_pjoin: "path_ok p \<Longrightarrow> path_ok (pjoin p s)"
  unfolding path_ok_def by (rule pjoin_names)

lemma resolve_proper: "resolve fs p = Inr q \<Longrightarrow> path_ok p \<Longrightarrow> list_all proper_name q"
  unfolding path_ok_def by (rule resolve_names)

lemma staging_write:
  assumes "staging t fs" and "resolve fs p = Inr qd" and "path_ok p"
    and "node_at fs qd \<noteq> Some Dir" and "node_at fs (butlast qd) = Some Dir"
  shows "staging t (fd_write fs qd c)"
proof -
  from assms(1) have s: "tree fs" "names_ok fs" "node_at fs t = Some Dir" "flat_below t fs"
    by (simp_all add: staging_def)
  have "tree (fd_write fs qd c)" using s(1) assms(4,5) by (rule tree_fd_write)
  moreover have "names_ok (fd_write fs qd c)"
    using s(2) resolve_proper [OF assms(2,3)] by (rule names_ok_fd_write)
  moreover have "node_at (fd_write fs qd c) t = Some Dir"
    using s(3) assms(4) by (auto simp: node_at_fd_write)
  moreover have "flat_below t (fd_write fs qd c)" using s(4) assms(5) by (rule flat_below_fd_write)
  ultimately show ?thesis by (simp add: staging_def)
qed

lemma staging_copy:
  assumes "staging t fs" and "path_ok dst" and "shutil_copy fs src dst = Inr fs'"
  shows "staging t fs'"
proof -
  from shutil_copy_Inr [OF assms(3)] obtain dst' qd c where
    c: "resolve fs dst' = Inr qd" "dst' = dst \<or> dst' = pjoin dst (path_name src)"
      "node_at fs qd \<noteq> Some Dir" "node_at fs (butlast qd) = Some Dir" "fs' = fd_write fs qd c"
    by blast
  from c(2) assms(2) have "path_ok dst'" using path_ok_pjoin [of dst "path_name src"] by auto
  with assms(1) c(1) have "staging t (fd_write fs qd c)" using c(3,4) by (rule staging_write)
  with c(5) show ?thesis by simp
qed

lemma staging_copy_loop:
  assumes "list_all proper_name (temp_dir self)"
  shows "staging (temp_dir self) fs \<Longrightarrow> copy_loop self specs fs = (None, fs') \<Longrightarrow>
    staging (temp_dir self) fs'"
proof (induction specs arbitrary: fs)
  case Nil
  then show ?case by simp
next
  case (Cons s specs)
  show ?case
  proof (cases "path_exists fs (path s)")
    case True
    show ?thesis
    proof (cases "shutil_copy fs (path s) (pjoin (temp_dir self) (destination_name s))")
      case (Inl e)
      with True Cons.prems(2) show ?thesis by simp
    next
      case (Inr fs1)
      have "path_ok (pjoin (temp_dir self) (destination_name s))"
        using assms by (intro path_ok_pjoin path_ok_proper)
      with Cons.prems(1) have "staging (temp_dir self) fs1" using Inr by (rule staging_copy)
      moreover have "copy_loop self specs fs1 = (None, fs')"
        using Cons.prems(2) True Inr by simp
      ultimately show ?thesis by (rule Cons.IH)
    qed
  next
    case False
    with Cons.prems(2) have "copy_loop self specs fs = (None, fs')"
      by (auto split: if_splits sum.splits)
    with Cons.prems(1) show ?thesis by (rule Cons.IH)
  qed
qed

lemma files_under_mem:
  "(n, c) \<in> set (files_under t fs) \<Longrightarrow>
   \<exists>k. (k, File c) \<in> set fs \<and> strict_prefix t k \<and> n = drop (length t) k"
proof (induction fs)
  case Nil
  then show ?case by simp
next
  case (Cons x fs)
  obtain k nd where x: "x = (k, nd)" by (cases x)
  show ?case
  proof (cases "(n, c) \<in> set (files_under t fs)")
    case True
    with Cons.IH show ?thesis by auto
  next
    case False
    with Cons.prems x have "nd = File c \<and> strict_prefix t k \<and> n = drop (length t) k"
      by (auto split: node.splits if_splits)
    with x show ?thesis by auto
  qed
qed

lemma present_key: "(k, n) \<in> set fs \<Longrightarrow> node_at fs k \<noteq> None"
proof -
  assume "(k, n) \<in> set fs"
  then have "k \<in> fst ` set fs" by force
  then have "map_of fs k \<noteq> None" by (simp add: map_of_eq_None_iff)
  then show ?thesis by (simp add: node_at_def)
qed


lemma packager_dirs:
  assumes "list_all proper_name (project_root w)"
  shows "dist_dir (make_packager w a m v) = project_root w @ [''dist'']"
    and "temp_dir (make_packager w a m v)
      = (project_root w @ [''dist'']) @ [''temp_package_'' @ strftime (now w)]"
    and "list_all proper_name (temp_dir (make_packager w a m v))"
proof -
  have d: "pjoin (project_root w) ''dist'' = project_root w @ [''dist'']"
    by (rule pjoin_flat) simp_all
  have n: "proper_name (''temp_package_'' @ strftime (now w))" by (rule staging_name_proper)
  have t: "pjoin (project_root w @ [''dist'']) (''temp_package_'' @ strftime (now w))
      = (project_root w @ [''dist'']) @ [''temp_package_'' @ strftime (now w)]"
    using n by (intro pjoin_flat) (simp_all add: proper_name_def)
  show "dist_dir (make_packager w a m v) = project_root w @ [''dist'']"
    by (simp add: make_packager_def d)
  show t': "temp_dir (make_packager w a m v)
      = (project_root w @ [''dist'']) @ [''temp_package_'' @ strftime (now w)]"
    unfolding make_packager_def d t by simp
  show "list_all proper_name (temp_dir (make_packager w a m v))"
    unfolding t' using assms n by (simp add: proper_name_def)
qed

lemma prepare_file_spec_Inr:
  assumes "prepare_file_spec w self fs = (Inr specs, fs3)"
  shows "\<exists>fs1 fs2.
    (if \<not> path_exists fs (dist_dir self) then mkdir_parents False fs (dist_dir self)
     else Inr fs) = Inr fs1
    \<and> (if path_exists fs1 (temp_dir self) then rmtree fs1 (temp_dir self) else Inr fs1)
      = Inr fs2
    \<and> mkdir_parents False fs2 (temp_dir self) = Inr fs3
    \<and> specs = DEFAULT_FILESPEC w
        @ [\<lparr>path = dll_source_path self, required = True, rename_to = Some (dll_name self)\<rparr>]"
  using assms unfolding prepare_file_spec_def by (auto split: sum.splits)

lemma prepare_staging:
  assumes fs: "tree fs" "names_ok fs" "distinct (map fst fs)"
    and root: "list_all proper_name (project_root w)" "node_at fs (project_root w) = Some Dir"
    and run: "prepare_file_spec w (make_packager w a m v) fs = (Inr specs, fs3)"
  shows "staging (temp_dir (make_packager w a m v)) fs3"
    and "distinct (map fst fs3)"
    and "\<forall>k. strict_prefix (temp_dir (make_packager w a m v)) k \<longrightarrow> node_at fs3 k = None"
    and "\<forall>k. \<not> prefix (project_root w @ [''dist'']) k \<longrightarrow> node_at fs3 k = node_at fs k"
    and "node_at fs3 (project_root w @ [''dist'']) = Some Dir"
proof -
  let ?root = "project_root w"
  let ?dist = "?root @ [''dist'']"
  let ?tn = "''temp_package_'' @ strftime (now w)"
  let ?self = "make_packager w a m v"
  note dirs = packager_dirs [OF root(1), of a m v]
  from prepare_file_spec_Inr [OF run] obtain fs1 fs2 where
    one: "(if \<not> path_exists fs ?dist then mkdir_parents False fs ?dist else Inr fs) = Inr fs1"
    and two: "(if path_exists fs1 (?dist @ [?tn]) then rmtree fs1 (?dist @ [?tn]) else Inr fs1)
      = Inr fs2"
    and three: "mkdir_parents False fs2 (?dist @ [?tn]) = Inr fs3"
    unfolding dirs(1,2) by blast
  have pd: "list_all proper_name ?dist" using root(1) by (simp add: proper_name_def)
  have pt: "list_all proper_name (?dist @ [?tn])" using dirs(3) unfolding dirs(2) .
  from ensure_dir [OF fs pd root(2) one]
  have fs1: "tree fs1" "names_ok fs1" "distinct (map fst fs1)" "node_at fs1 ?dist \<noteq> None"
    and keep1: "\<And>k. k \<noteq> ?dist \<Longrightarrow> node_at fs1 k = node_at fs k"
    by auto
  from fresh_dir [OF fs1(1,2,3) pt fs1(4) two three]
  have fs3: "tree fs3" "names_ok fs3" "distinct (map fst fs3)"
      "node_at fs3 (?dist @ [?tn]) = Some Dir" "node_at fs3 ?dist = Some Dir"
    and empty: "\<And>k. strict_prefix (?dist @ [?tn]) k \<Longrightarrow> node_at fs3 k = None"
    and keep3: "\<And>k. \<not> prefix (?dist @ [?tn]) k \<Longrightarrow> node_at fs3 k = node_at fs1 k"
    by auto
  have "flat_below (?dist @ [?tn]) fs3" using empty by (simp add: flat_below_def)
  with fs3 show "staging (temp_dir ?self) fs3" unfolding dirs(2) by (simp add: staging_def)
  show "distinct (map fst fs3)" by (rule fs3(3))
  show "node_at fs3 ?dist = Some Dir" by (rule fs3(5))
  show "\<forall>k. strict_prefix (temp_dir ?self) k \<longrightarrow> node_at fs3 k = None"
    unfolding dirs(2) using empty by blast
  show "\<forall>k. \<not> prefix ?dist k \<longrightarrow> node_at fs3 k = node_at fs k"
  proof (intro allI impI)
    fix k
    assume n: "\<not> prefix ?dist k"
    then have "\<not> prefix (?dist @ [?tn]) k" by (meson prefix_order.trans prefixI)
    then have "node_at fs3 k = node_at fs1 k" by (rule keep3)
    also have "\<dots> = node_at fs k" using n by (intro keep1) auto
    finally show "node_at fs3 k = node_at fs k" .
  qed
qed

lemma zip_files_Inr:
  assumes "zip_files self fs = (Inr u, fs')"
  shows "\<exists>qz q. open_write fs (zip_file_name self) = Inr (qz, fd_write fs qz (Bytes []))
    \<and> stat (fd_write fs qz (Zip (walk_files (fd_write fs qz (Bytes [])) (temp_dir self))))
        (temp_dir self) = Inr (q, Dir)
    \<and> fs' = filter (\<lambda>(k, n). \<not> prefix q k)
        (fd_write fs qz (Zip (walk_files (fd_write fs qz (Bytes [])) (temp_dir self))))"
proof (cases "open_write fs (zip_file_name self)")
  case (Inl e)
  with assms show ?thesis by (auto simp: zip_files_def split: sum.splits)
next
  case (Inr x)
  obtain qz fs1 where x: "x = (qz, fs1)" by (cases x)
  with Inr have fs1: "fs1 = fd_write fs qz (Bytes [])" by (simp add: open_write_Inr)
  let ?fs2 = "fd_write fs1 qz (Zip (walk_files fs1 (temp_dir self)))"
  from assms Inr x obtain fs3 where "rmtree ?fs2 (temp_dir self) = Inr fs3" "fs' = fs3"
    by (auto simp: zip_files_def split: sum.splits)
  then obtain q where "stat ?fs2 (temp_dir self) = Inr (q, Dir)"
    "fs' = filter (\<lambda>(k, n). \<not> prefix q k) ?fs2"
    by (auto simp: rmtree_Inr)
  with Inr x show ?thesis unfolding fs1 by (auto simp: fd_write_twice)
qed


lemma process_Inr_steps:
  assumes "process w self fs = (Inr u, fs')"
  shows "\<exists>specs fs1 fs2. prepare_file_spec w self fs = (Inr specs, fs1)
    \<and> copy_loop self specs fs1 = (None, fs2) \<and> zip_files self fs2 = (Inr u, fs')"
proof -
  obtain r1 fs1 where p: "prepare_file_spec w self fs = (r1, fs1)"
    by (cases "prepare_file_spec w self fs")
  with assms obtain specs where r1: "r1 = Inr specs"
    by (cases r1) (auto simp: process_def)
  obtain r2 fs2 where c: "copy_files self specs fs1 = (r2, fs2)"
    by (cases "copy_files self specs fs1")
  with assms p r1 obtain u2 where r2: "r2 = Inr u2"
    by (cases r2) (auto simp: process_def)
  from assms p r1 c r2 have "zip_files self fs2 = (Inr u, fs')" by (simp add: process_def)
  moreover from c r2 have "copy_loop self specs fs1 = (None, fs2)"
    using copy_files_Inr by blast
  ultimately show ?thesis using p r1 by blast
qed


subsection \<open>Copies into an empty staging directory\<close>

lemma update_absent: "q \<notin> fst ` set al \<Longrightarrow> AList.update q n al = al @ [(q, n)]"
  by (induction al) auto

lemma fd_write_absent: "node_at fs q = None \<Longrightarrow> fd_write fs q c = fs @ [(q, File c)]"
  unfolding fd_write_def by (rule update_absent) (rule absent_key)

lemma tree_append:
  assumes "tree fs" and "node_at fs q = None" and "node_at fs (butlast q) = Some Dir"
  shows "tree (fs @ [(q, n)])"
  unfolding tree_def
proof (intro allI impI)
  fix k
  assume "node_at (fs @ [(q, n)]) k \<noteq> None"
  then have "k = q \<or> node_at fs k \<noteq> None"
    by (auto simp: node_at_append [OF assms(2)] split: if_splits)
  then have "node_at fs (butlast k) = Some Dir"
    using assms(1,3) by (auto simp: tree_def)
  then show "node_at (fs @ [(q, n)]) (butlast k) = Some Dir"
    using assms(2) by (auto simp: node_at_append [OF assms(2)])
qed

lemma proper_plain: "list_all proper_name p \<Longrightarrow> ''..'' \<notin> set p"
  by (auto simp: list_all_iff proper_name_def)

lemma pjoin_proper: "proper_name d \<Longrightarrow> pjoin t d = t @ [d]"
  by (rule pjoin_flat) (simp_all add: proper_name_def)

lemma copy_into_staging:
  assumes "tree fs" and "''..'' \<notin> set t" and "node_at fs t = Some Dir" and "proper_name d"
    and "node_at fs (t @ [d]) = None" and "''..'' \<notin> set src"
    and "node_at fs src = Some (File c)"
  shows "shutil_copy fs src (pjoin t d) = Inr (fs @ [(t @ [d], File c)])"
proof -
  from assms(4) have d: "d \<noteq> ''..''" by (auto simp: proper_name_def)
  with assms(2) have plain: "''..'' \<notin> set (t @ [d])" by simp
  have nodir: "\<not> path_isdir fs (t @ [d])"
    using assms(5) by (simp add: path_isdir_plain [OF assms(1) plain])
  from stat_plain_None [OF assms(1) plain assms(5)] obtain e where
    st: "stat fs (t @ [d]) = Inl e"
    by blast
  have rd: "read_file fs src = Inr c"
    using assms(7) by (simp add: read_file_plain [OF assms(1,6)])
  have "resolve fs (t @ [d]) = Inr (t @ [d])"
    using assms(1,2,3) d by (rule resolve_in_dir)
  then have "write_file fs (t @ [d]) c = Inr (fd_write fs (t @ [d]) c)"
    using assms(3,5) by (simp add: write_file_Inr)
  then have wr: "write_file fs (t @ [d]) c = Inr (fs @ [(t @ [d], File c)])"
    by (simp add: fd_write_absent [OF assms(5)])
  show ?thesis
    unfolding shutil_copy_def pjoin_proper [OF assms(4)]
    by (simp add: Let_def nodir st rd wr split: sum.splits prod.splits)
qed

lemma copy_of_dir_fails:
  assumes "tree fs" and "''..'' \<notin> set src" and "node_at fs src = Some Dir"
  shows "\<exists>e. shutil_copy fs src dst = Inl e"
proof -
  have "read_file fs src = Inl IsADirectoryError"
    using stat_plain_Some [OF assms] by (simp add: read_file_def)
  then show ?thesis
    unfolding shutil_copy_def Let_def by (auto split: sum.splits prod.splits)
qed

lemma copy_loop_flat:
  assumes t: "''..'' \<notin> set (temp_dir self)"
  shows "tree fs \<Longrightarrow> node_at fs (temp_dir self) = Some Dir \<Longrightarrow>
    (\<forall>s \<in> set specs. ''..'' \<notin> set (path s) \<and> \<not> prefix (temp_dir self) (path s)
       \<and> proper_name (destination_name s)
       \<and> node_at fs (temp_dir self @ [destination_name s]) = None) \<Longrightarrow>
    distinct (map destination_name specs) \<Longrightarrow>
    copy_loop self specs fs = (None, fs') \<Longrightarrow>
    fs' = fs @ staged_nodes (temp_dir self) fs specs
    \<and> (\<forall>s \<in> set specs. (required s \<longrightarrow> node_at fs (path s) \<noteq> None)
          \<and> node_at fs (path s) \<noteq> Some Dir)"
proof (induction specs arbitrary: fs)
  case Nil
  then show ?case by (simp add: staged_nodes_def)
next
  case (Cons s specs)
  let ?t = "temp_dir self"
  let ?d = "destination_name s"
  from Cons.prems(3) have s: "''..'' \<notin> set (path s)" "\<not> prefix ?t (path s)"
    "proper_name ?d" "node_at fs (?t @ [?d]) = None"
    by simp_all
  have ex: "path_exists fs (path s) \<longleftrightarrow> node_at fs (path s) \<noteq> None"
    using Cons.prems(1) s(1) by (rule path_exists_plain)
  have rest: "\<forall>s' \<in> set specs. ''..'' \<notin> set (path s') \<and> \<not> prefix ?t (path s')
       \<and> proper_name (destination_name s')
       \<and> node_at fs (?t @ [destination_name s']) = None"
    using Cons.prems(3) by simp
  have dist: "distinct (map destination_name specs)" using Cons.prems(4) by simp
  show ?case
  proof (cases "node_at fs (path s)")
    case None
    with ex have "\<not> path_exists fs (path s)" by simp
    with Cons.prems(5) have nr: "\<not> required s" and l: "copy_loop self specs fs = (None, fs')"
      by (auto split: if_splits sum.splits)
    from Cons.IH [OF Cons.prems(1,2) rest dist l] None nr show ?thesis
      by (simp add: staged_nodes_def)
  next
    case (Some nd)
    with ex have e: "path_exists fs (path s)" by simp
    show ?thesis
    proof (cases nd)
      case Dir
      with copy_of_dir_fails [OF Cons.prems(1) s(1)] Some obtain e' where
        "shutil_copy fs (path s) (pjoin ?t ?d) = Inl e'"
        by blast
      with e Cons.prems(5) show ?thesis by simp
    next
      case (File c)
      let ?fs1 = "fs @ [(?t @ [?d], File c)]"
      have cp: "shutil_copy fs (path s) (pjoin ?t ?d) = Inr ?fs1"
        using Cons.prems(1) t Cons.prems(2) s(3,4,1) Some File
        by (intro copy_into_staging) simp_all
      with e Cons.prems(5) have l: "copy_loop self specs ?fs1 = (None, fs')" by simp
      have n1: "node_at ?fs1 x = (if x = ?t @ [?d] then Some (File c) else node_at fs x)" for x
        by (rule node_at_append [OF s(4)])
      have t1: "tree ?fs1"
        using Cons.prems(1) s(4) Cons.prems(2) by (intro tree_append) simp_all
      have d1: "node_at ?fs1 ?t = Some Dir" using Cons.prems(2) by (simp add: n1)
      have src: "node_at ?fs1 (path s') = node_at fs (path s')" if "s' \<in> set specs" for s'
      proof -
        from rest that have "\<not> prefix ?t (path s')" by simp
        then have "path s' \<noteq> ?t @ [?d]" by auto
        then show ?thesis by (simp add: n1)
      qed
      have rest1: "\<forall>s' \<in> set specs. ''..'' \<notin> set (path s') \<and> \<not> prefix ?t (path s')
         \<and> proper_name (destination_name s')
         \<and> node_at ?fs1 (?t @ [destination_name s']) = None"
      proof
        fix s'
        assume m: "s' \<in> set specs"
        then have "destination_name s' \<in> set (map destination_name specs)" by simp
        moreover from Cons.prems(4) have "?d \<notin> set (map destination_name specs)" by simp
        ultimately have "destination_name s' \<noteq> ?d" by metis
        with rest m show "''..'' \<notin> set (path s') \<and> \<not> prefix ?t (path s')
           \<and> proper_name (destination_name s')
           \<and> node_at ?fs1 (?t @ [destination_name s']) = None"
          by (simp add: n1)
      qed
      from Cons.IH [OF t1 d1 rest1 dist l]
      have r: "fs' = ?fs1 @ staged_nodes ?t ?fs1 specs"
        "\<forall>s' \<in> set specs. (required s' \<longrightarrow> node_at ?fs1 (path s') \<noteq> None)
            \<and> node_at ?fs1 (path s') \<noteq> Some Dir"
        by simp_all
      have "staged_nodes ?t ?fs1 specs = staged_nodes ?t fs specs"
        unfolding staged_nodes_def using src by (intro arg_cong [where f = concat] map_cong) simp_all
      with r(1) have "fs' = fs @ staged_nodes ?t fs (s # specs)"
        using Some File by (simp add: staged_nodes_def)
      moreover have "\<forall>s' \<in> set (s # specs). (required s' \<longrightarrow> node_at fs (path s') \<noteq> None)
            \<and> node_at fs (path s') \<noteq> Some Dir"
        using r(2) src Some File by auto
      ultimately show ?thesis by blast
    qed
  qed
qed

subsection \<open>The files under the staging directory\<close>

lemma strict_prefix_snoc_self [simp]: "strict_prefix t (t @ [x])"
  by (auto simp: strict_prefix_def)

lemma files_under_append: "files_under t (xs @ ys) = files_under t xs @ files_under t ys"
  by (induction xs) (auto split: node.splits)

lemma files_under_empty:
  assumes "\<forall>k. strict_prefix t k \<longrightarrow> node_at fs k = None"
  shows "files_under t fs = []"
proof (rule ccontr)
  assume "files_under t fs \<noteq> []"
  then obtain n c where "(n, c) \<in> set (files_under t fs)"
    by (cases "files_under t fs") auto
  from files_under_mem [OF this] obtain k where "(k, File c) \<in> set fs" "strict_prefix t k"
    by blast
  with present_key [of k "File c" fs] assms show False by auto
qed

lemma files_under_update:
  "\<not> strict_prefix t q \<Longrightarrow> files_under t (AList.update q n fs) = files_under t fs"
  by (induction fs) (auto split: node.splits)

lemma files_under_staged: "files_under t (staged_nodes t fs specs) = staged_entries fs specs"
  unfolding staged_nodes_def staged_entries_def
  by (induction specs) (auto simp: files_under_append split: option.splits node.splits)

lemma node_at_append_other:
  "k \<notin> fst ` set ys \<Longrightarrow> node_at (xs @ ys) k = node_at xs k"
proof -
  assume "k \<notin> fst ` set ys"
  then have "map_of ys k = None" by (simp add: map_of_eq_None_iff)
  then show ?thesis by (simp add: node_at_def map_add_def split: option.splits)
qed

lemma staged_nodes_keys:
  "k \<in> fst ` set (staged_nodes t fs specs) \<Longrightarrow> strict_prefix t k"
  unfolding staged_nodes_def by (auto split: option.splits node.splits)

lemma copy_loop_distinct:
  "distinct (map fst fs) \<Longrightarrow> copy_loop self specs fs = (None, fs') \<Longrightarrow> distinct (map fst fs')"
proof (induction specs arbitrary: fs)
  case Nil
  then show ?case by simp
next
  case (Cons s specs)
  show ?case
  proof (cases "path_exists fs (path s)")
    case True
    show ?thesis
    proof (cases "shutil_copy fs (path s) (pjoin (temp_dir self) (destination_name s))")
      case (Inl e)
      with True Cons.prems(2) show ?thesis by simp
    next
      case (Inr fs1)
      from shutil_copy_Inr [OF Inr] obtain qd c where "fs1 = fd_write fs qd c" by blast
      with Cons.prems(1) have "distinct (map fst fs1)" by (simp add: distinct_fd_write)
      moreover have "copy_loop self specs fs1 = (None, fs')"
        using Cons.prems(2) True Inr by simp
      ultimately show ?thesis by (rule Cons.IH)
    qed
  next
    case False
    with Cons.prems(2) have "copy_loop self specs fs = (None, fs')"
      by (auto split: if_splits sum.splits)
    with Cons.prems(1) show ?thesis by (rule Cons.IH)
  qed
qed

subsection \<open>A run with field texts that are file names\<close>

lemma long_name_proper:
  assumes "CHR ''/'' \<notin> set s" and "3 \<le> length s"
  shows "proper_name s"
proof -
  have "s \<noteq> []" "s \<noteq> ''.''" "s \<noteq> ''..''" using assms(2) by auto
  with assms(1) show ?thesis by (simp add: proper_name_def)
qed

lemma dll_name_proper: "CHR ''/'' \<notin> set a \<Longrightarrow> proper_name (a @ ''.dll'')"
  by (rule long_name_proper) simp_all

lemma zip_name_proper: "CHR ''/'' \<notin> set (m @ v) \<Longrightarrow> proper_name (m @ ''-'' @ v @ ''.zip'')"
  by (rule long_name_proper) simp_all

lemma dll_name_differs: "last x \<noteq> CHR ''l'' \<Longrightarrow> a @ ''.dll'' \<noteq> x"
  by auto

text \<open>The effective file list: the paths, the names in the staging directory.\<close>

lemma file_list:
  assumes "list_all proper_name (project_root w)" and "CHR ''/'' \<notin> set a"
  shows "map (\<lambda>s. (path s, destination_name s, required s))
      (DEFAULT_FILESPEC w
       @ [\<lparr>path = dll_source_path (make_packager w a m v), required = True,
            rename_to = Some (dll_name (make_packager w a m v))\<rparr>])
    = [(project_root w @ [''manifest.json''], ''manifest.json'', True),
       (project_root w @ [''img'', ''icon.png''], ''icon.png'', True),
       (project_root w @ [''README.md''], ''README.md'', True),
       (project_root w @ [''CHANGELOG.md''], ''CHANGELOG.md'', False),
       (project_root w @ DLL_SOURCE_FOLDER @ [a @ ''.dll''], a @ ''.dll'', True)]"
proof -
  have d: "pjoin p (a @ ''.dll'') = p @ [a @ ''.dll'']" for p
    using dll_name_proper [OF assms(2)] by (rule pjoin_proper)
  have l: "pjoin p ''manifest.json'' = p @ [''manifest.json'']"
    "pjoin p ''img'' = p @ [''img'']" "pjoin p ''icon.png'' = p @ [''icon.png'']"
    "pjoin p ''README.md'' = p @ [''README.md'']"
    "pjoin p ''CHANGELOG.md'' = p @ [''CHANGELOG.md'']" for p
    by (simp_all add: pjoin_flat)
  show ?thesis
    by (simp add: DEFAULT_FILESPEC_def make_packager_def destination_name_def path_name_def d l)
qed

lemma ball_file_list:
  assumes "map (\<lambda>s. (path s, destination_name s, required s)) specs = xs"
    and "\<forall>(p, d, r) \<in> set xs. P p d r"
  shows "\<forall>s \<in> set specs. P (path s) (destination_name s) (required s)"
  using assms by (force simp: list_eq_iff_nth_eq in_set_conv_nth)


lemma process_flat:
  assumes fs: "tree fs" "names_ok fs" "distinct (map fst fs)"
    and root: "list_all proper_name (project_root w)" "node_at fs (project_root w) = Some Dir"
    and flat: "CHR ''/'' \<notin> set (a @ m @ v)"
    and run: "process w (make_packager w a m v) fs = (Inr u, fs')"
    and specs: "specs = DEFAULT_FILESPEC w
       @ [\<lparr>path = dll_source_path (make_packager w a m v), required = True,
            rename_to = Some (dll_name (make_packager w a m v))\<rparr>]"
  shows "\<forall>s \<in> set specs. (required s \<longrightarrow> node_at fs (path s) \<noteq> None)
          \<and> node_at fs (path s) \<noteq> Some Dir"
    and "node_at fs' (zip_file_name (make_packager w a m v))
      = Some (File (Zip (staged_entries fs specs)))"
    and "zip_file_name (make_packager w a m v)
      = (project_root w @ [''dist'']) @ [m @ ''-'' @ v @ ''.zip'']"
    and "tree fs'" and "names_ok fs'" and "distinct (map fst fs')"
    and "\<forall>k. \<not> prefix (project_root w @ [''dist'']) k \<longrightarrow> node_at fs' k = node_at fs k"
    and "node_at fs' (project_root w @ [''dist'']) = Some Dir"
proof -
  let ?self = "make_packager w a m v"
  let ?root = "project_root w"
  let ?dist = "?root @ [''dist'']"
  let ?tn = "''temp_package_'' @ strftime (now w)"
  let ?t = "?dist @ [?tn]"
  let ?zn = "m @ ''-'' @ v @ ''.zip''"
  let ?zp = "?dist @ [?zn]"
  note dirs = packager_dirs [OF root(1), of a m v]
  have t: "temp_dir ?self = ?t" by (rule dirs(2))
  have pt: "list_all proper_name ?t" using dirs(3) unfolding t .
  have plain_t: "''..'' \<notin> set ?t" using pt by (rule proper_plain)
  have plain_root: "''..'' \<notin> set ?root" using root(1) by (rule proper_plain)
  from flat have pz: "proper_name ?zn" by (intro zip_name_proper) simp
  have zp: "zip_file_name ?self = ?zp"
    using pjoin_proper [OF pz, of ?dist] by (simp add: make_packager_def pjoin_flat)
  have plain_zp: "''..'' \<notin> set ?zp"
    using plain_root pz by (auto simp: proper_name_def)
  from process_Inr_steps [OF run] obtain specs' fs1 fs2 where
    p: "prepare_file_spec w ?self fs = (Inr specs', fs1)"
    and c: "copy_loop ?self specs' fs1 = (None, fs2)"
    and z: "zip_files ?self fs2 = (Inr u, fs')"
    by blast
  from prepare_file_spec_Inr [OF p] specs have "specs' = specs" by blast
  note p = p [unfolded this] and c = c [unfolded this]
  note prep = prepare_staging [OF fs root p]
  from prep(1) have s1: "staging ?t fs1" unfolding t .
  then have fs1: "tree fs1" "node_at fs1 ?t = Some Dir" by (simp_all add: staging_def)
  from prep(3) have empty: "\<And>k. strict_prefix ?t k \<Longrightarrow> node_at fs1 k = None"
    unfolding t by blast
  from prep(4) have keep: "\<And>k. \<not> prefix ?dist k \<Longrightarrow> node_at fs1 k = node_at fs k"
    by blast
  have list: "map (\<lambda>s. (path s, destination_name s, required s)) specs
    = [(?root @ [''manifest.json''], ''manifest.json'', True),
       (?root @ [''img'', ''icon.png''], ''icon.png'', True),
       (?root @ [''README.md''], ''README.md'', True),
       (?root @ [''CHANGELOG.md''], ''CHANGELOG.md'', False),
       (?root @ DLL_SOURCE_FOLDER @ [a @ ''.dll''], a @ ''.dll'', True)]"
    unfolding specs using root(1) flat by (intro file_list) simp_all
  have pd: "proper_name (a @ ''.dll'')" using flat by (intro dll_name_proper) simp
  have srcs: "\<forall>s \<in> set specs. ''..'' \<notin> set (path s) \<and> \<not> prefix ?dist (path s)
      \<and> proper_name (destination_name s)"
    using plain_root pd
    by (intro ball_file_list [OF list, where P = "\<lambda>p d r. ''..'' \<notin> set p \<and> \<not> prefix ?dist p
      \<and> proper_name d"])
      (auto simp: DLL_SOURCE_FOLDER_def proper_name_def)
  have pre: "\<forall>s \<in> set specs. ''..'' \<notin> set (path s) \<and> \<not> prefix (temp_dir ?self) (path s)
       \<and> proper_name (destination_name s)
       \<and> node_at fs1 (temp_dir ?self @ [destination_name s]) = None"
  proof
    fix s
    assume "s \<in> set specs"
    with srcs have s: "''..'' \<notin> set (path s)" "\<not> prefix ?dist (path s)"
      "proper_name (destination_name s)"
      by auto
    from s(2) have "\<not> prefix ?t (path s)" by (meson prefix_order.trans prefixI)
    moreover have "node_at fs1 (?t @ [destination_name s]) = None"
      by (rule empty) (rule strict_prefix_snoc_self)
    ultimately show "''..'' \<notin> set (path s) \<and> \<not> prefix (temp_dir ?self) (path s)
       \<and> proper_name (destination_name s)
       \<and> node_at fs1 (temp_dir ?self @ [destination_name s]) = None"
      unfolding t using s(1,3) by simp
  qed
  have "map destination_name specs
      = map (\<lambda>x. fst (snd x)) (map (\<lambda>s. (path s, destination_name s, required s)) specs)"
    by simp
  also have "\<dots> = [''manifest.json'', ''icon.png'', ''README.md'', ''CHANGELOG.md'', a @ ''.dll'']"
    unfolding list by simp
  finally have names: "map destination_name specs
      = [''manifest.json'', ''icon.png'', ''README.md'', ''CHANGELOG.md'', a @ ''.dll'']" .
  have dist: "distinct (map destination_name specs)"
    unfolding names by (simp add: dll_name_differs [symmetric])
  have plain_t': "''..'' \<notin> set (temp_dir ?self)" unfolding t by (rule plain_t)
  have dir_t': "node_at fs1 (temp_dir ?self) = Some Dir" unfolding t by (rule fs1(2))
  from copy_loop_flat [OF plain_t' fs1(1) dir_t' pre dist c]
  have fs2: "fs2 = fs1 @ staged_nodes ?t fs1 specs"
    and there: "\<forall>s \<in> set specs. (required s \<longrightarrow> node_at fs1 (path s) \<noteq> None)
          \<and> node_at fs1 (path s) \<noteq> Some Dir"
    unfolding t by simp_all
  have src: "node_at fs1 (path s) = node_at fs (path s)" if "s \<in> set specs" for s
    using srcs that by (intro keep) simp
  show "\<forall>s \<in> set specs. (required s \<longrightarrow> node_at fs (path s) \<noteq> None)
          \<and> node_at fs (path s) \<noteq> Some Dir"
    using there src by simp
  have "staged_nodes ?t fs1 specs = staged_nodes ?t fs specs"
    unfolding staged_nodes_def using src by (intro arg_cong [where f = concat] map_cong) simp_all
  with fs2 have fs2: "fs2 = fs1 @ staged_nodes ?t fs specs" by simp
  have other: "node_at fs2 k = node_at fs1 k" if "\<not> strict_prefix ?t k" for k
    unfolding fs2 using that staged_nodes_keys [of k ?t fs specs]
    by (intro node_at_append_other) auto
  have pt': "list_all proper_name (temp_dir ?self)" by (rule dirs(3))
  have "staging (temp_dir ?self) fs2"
    using pt' prep(1) c by (rule staging_copy_loop)
  then have s2: "staging ?t fs2" unfolding t .
  have d2: "distinct (map fst fs2)" using prep(2) c by (rule copy_loop_distinct)
  from zip_files_Inr [OF z] obtain qz q where
    o: "open_write fs2 ?zp = Inr (qz, fd_write fs2 qz (Bytes []))"
    and st: "stat (fd_write fs2 qz (Zip (walk_files (fd_write fs2 qz (Bytes [])) ?t))) ?t
      = Inr (q, Dir)"
    and fs': "fs' = filter (\<lambda>(k, n). \<not> prefix q k)
        (fd_write fs2 qz (Zip (walk_files (fd_write fs2 qz (Bytes [])) ?t)))"
    unfolding zp t by blast
  from o have r: "resolve fs2 ?zp = Inr qz" "node_at fs2 qz \<noteq> Some Dir"
    "node_at fs2 (butlast qz) = Some Dir"
    by (simp_all add: open_write_Inr)
  from resolve_plain [OF plain_zp r(1)] have qz: "qz = ?zp" .
  have ok_zp: "path_ok ?zp"
    using root(1) pz by (intro path_ok_proper) (simp add: proper_name_def)
  have sw: "staging ?t (fd_write fs2 ?zp x)" for x
    using s2 r(1) ok_zp r(2,3) unfolding qz by (rule staging_write)
  then have tw: "tree (fd_write fs2 ?zp x)" "node_at (fd_write fs2 ?zp x) ?t = Some Dir"
    "names_ok (fd_write fs2 ?zp x)" for x
    by (simp_all add: staging_def)
  have stw: "stat (fd_write fs2 ?zp x) ?t = Inr (?t, Dir)" for x
    using tw(1,2) [of x] plain_t by (intro stat_plain_Some)
  from s2 r(2) have ne: "?zp \<noteq> ?t" unfolding qz by (auto simp: staging_def)
  then have nz: "?zn \<noteq> ?tn" by simp
  then have not_below: "\<not> strict_prefix ?t ?zp" "\<not> prefix ?t ?zp"
    by (simp_all add: strict_prefix_def)
  have "walk_files (fd_write fs2 ?zp (Bytes [])) ?t = files_under ?t (fd_write fs2 ?zp (Bytes []))"
    by (simp only: walk_files_def stw sum.case prod.case node.case)
  also have "\<dots> = files_under ?t fs2"
    unfolding fd_write_def using not_below(1) by (rule files_under_update)
  also have "\<dots> = files_under ?t fs1 @ files_under ?t (staged_nodes ?t fs specs)"
    unfolding fs2 by (rule files_under_append)
  also have "files_under ?t fs1 = []" using empty by (intro files_under_empty) blast
  also have "files_under ?t (staged_nodes ?t fs specs) = staged_entries fs specs"
    by (rule files_under_staged)
  finally have walk: "walk_files (fd_write fs2 ?zp (Bytes [])) ?t = staged_entries fs specs"
    by simp
  let ?fs3 = "fd_write fs2 ?zp (Zip (staged_entries fs specs))"
  from st stw [of "Zip (staged_entries fs specs)"] have q: "q = ?t"
    unfolding qz walk by simp
  have fs'': "fs' = filter (\<lambda>(k, n). \<not> prefix ?t k) ?fs3"
    using fs' unfolding qz walk q .
  have n': "node_at fs' k = (if prefix ?t k then None else node_at ?fs3 k)" for k
    unfolding fs'' by (auto simp: node_at_remove)
  show "zip_file_name ?self = ?zp" by (rule zp)
  show "node_at fs' (zip_file_name ?self) = Some (File (Zip (staged_entries fs specs)))"
    unfolding zp using not_below(2) by (simp add: n' node_at_fd_write)
  show "tree fs'" unfolding fs'' using tw(1) by (rule tree_remove)
  show "names_ok fs'" unfolding fs'' using tw(3) by (rule names_ok_remove)
  show "distinct (map fst fs')"
    unfolding fs'' using d2 by (intro distinct_remove distinct_fd_write)
  have dist_not: "\<not> strict_prefix ?t ?dist" "\<not> prefix ?t ?dist" "?dist \<noteq> ?zp"
    by (simp_all add: strict_prefix_def prefix_def)
  show "node_at fs' ?dist = Some Dir"
    using dist_not prep(5) other [of ?dist] by (simp add: n' node_at_fd_write)
  show "\<forall>k. \<not> prefix ?dist k \<longrightarrow> node_at fs' k = node_at fs k"
  proof (intro allI impI)
    fix k
    assume k: "\<not> prefix ?dist k"
    then have a: "\<not> prefix ?t k" by (meson prefix_order.trans prefixI)
    then have b: "\<not> strict_prefix ?t k" by (simp add: strict_prefix_def)
    from k have "k \<noteq> ?zp" by auto
    with a have "node_at fs' k = node_at fs2 k" by (simp add: n' node_at_fd_write)
    also have "\<dots> = node_at fs1 k" using b by (rule other)
    also have "\<dots> = node_at fs k" using k by (rule keep)
    finally show "node_at fs' k = node_at fs k" .
  qed
qed

text \<open>
  C1, amended. In a well-formed environment and with an assembly name, a mod name and a
  version that have no \<^verbatim>\<open>/\<close> in them, a run that ends normally has read the manifest,
  the icon, the README and the DLL, and has written an archive whose entries have
  different names and are: the manifest, the icon as \<^verbatim>\<open>icon.png\<close>, the README, the DLL
  under its name, each with the content of its source, and the changelog when, and only
  when, the changelog exists.
\<close>

theorem archive_holds_the_file_list:
  assumes "wf_env w fs" and "CHR ''/'' \<notin> set (a @ m @ v)"
    and "process w (make_packager w a m v) fs = (Inr u, fs')"
  shows "\<exists>manifest icon readme dll entries.
      read_file fs (pjoin (project_root w) ''manifest.json'') = Inr manifest
    \<and> read_file fs (pjoin (pjoin (project_root w) ''img'') ''icon.png'') = Inr icon
    \<and> read_file fs (pjoin (project_root w) ''README.md'') = Inr readme
    \<and> read_file fs (pjoin (project_root w @ DLL_SOURCE_FOLDER) (a @ ''.dll'')) = Inr dll
    \<and> read_file fs' (zip_file_name (make_packager w a m v)) = Inr (Zip entries)
    \<and> distinct (map fst entries)
    \<and> (if path_exists fs (pjoin (project_root w) ''CHANGELOG.md'')
        then \<exists>changelog.
          read_file fs (pjoin (project_root w) ''CHANGELOG.md'') = Inr changelog
          \<and> set entries = {([''manifest.json''], manifest), ([''icon.png''], icon),
               ([''README.md''], readme), ([''CHANGELOG.md''], changelog),
               ([a @ ''.dll''], dll)}
        else set entries = {([''manifest.json''], manifest), ([''icon.png''], icon),
               ([''README.md''], readme), ([a @ ''.dll''], dll)})"
proof -
  let ?self = "make_packager w a m v"
  let ?root = "project_root w"
  from assms(1) have env: "tree fs" "names_ok fs" "distinct (map fst fs)"
    and root: "list_all proper_name ?root"
    and cwd: "node_at fs ?root = Some Dir"
    by (simp_all add: wf_env_def wf_fs_tree wf_fs_names wf_fs_distinct)
  define specs where "specs = DEFAULT_FILESPEC w
       @ [\<lparr>path = dll_source_path ?self, required = True, rename_to = Some (dll_name ?self)\<rparr>]"
  note pf = process_flat [OF env root cwd assms(2,3) specs_def]
  have plain_root: "''..'' \<notin> set ?root" using root by (rule proper_plain)
  from assms(2) have pa: "proper_name (a @ ''.dll'')" by (intro dll_name_proper) simp
  from assms(2) have pz: "proper_name (m @ ''-'' @ v @ ''.zip'')" by (intro zip_name_proper) simp
  have d: "pjoin p (a @ ''.dll'') = p @ [a @ ''.dll'']" for p
    using pa by (rule pjoin_proper)
  have l: "pjoin p ''manifest.json'' = p @ [''manifest.json'']"
    "pjoin p ''img'' = p @ [''img'']" "pjoin p ''icon.png'' = p @ [''icon.png'']"
    "pjoin p ''README.md'' = p @ [''README.md'']"
    "pjoin p ''CHANGELOG.md'' = p @ [''CHANGELOG.md'']" for p
    by (simp_all add: pjoin_flat)
  have plain: "''..'' \<notin> set (?root @ [''manifest.json''])"
    "''..'' \<notin> set (?root @ [''img'', ''icon.png''])"
    "''..'' \<notin> set (?root @ [''README.md''])"
    "''..'' \<notin> set (?root @ [''CHANGELOG.md''])"
    "''..'' \<notin> set (?root @ DLL_SOURCE_FOLDER @ [a @ ''.dll''])"
    using plain_root pa by (auto simp: DLL_SOURCE_FOLDER_def proper_name_def)
  have isfile: "\<exists>c. node_at fs p = Some (File c)"
    if "node_at fs p \<noteq> None" "node_at fs p \<noteq> Some Dir" for p
    using that by (cases "node_at fs p") (simp, metis node.exhaust)
  from pf(1) have there:
    "node_at fs (?root @ [''manifest.json'']) \<noteq> None"
    "node_at fs (?root @ [''manifest.json'']) \<noteq> Some Dir"
    "node_at fs (?root @ [''img'', ''icon.png'']) \<noteq> None"
    "node_at fs (?root @ [''img'', ''icon.png'']) \<noteq> Some Dir"
    "node_at fs (?root @ [''README.md'']) \<noteq> None"
    "node_at fs (?root @ [''README.md'']) \<noteq> Some Dir"
    "node_at fs (?root @ [''CHANGELOG.md'']) \<noteq> Some Dir"
    "node_at fs (?root @ DLL_SOURCE_FOLDER @ [a @ ''.dll'']) \<noteq> None"
    "node_at fs (?root @ DLL_SOURCE_FOLDER @ [a @ ''.dll'']) \<noteq> Some Dir"
    by (simp_all add: specs_def DEFAULT_FILESPEC_def make_packager_def l d)
  from isfile [OF there(1,2)] obtain c1 where
    c1: "node_at fs (?root @ [''manifest.json'']) = Some (File c1)" ..
  from isfile [OF there(3,4)] obtain c2 where
    c2: "node_at fs (?root @ [''img'', ''icon.png'']) = Some (File c2)" ..
  from isfile [OF there(5,6)] obtain c3 where
    c3: "node_at fs (?root @ [''README.md'']) = Some (File c3)" ..
  from isfile [OF there(8,9)] obtain c5 where
    c5: "node_at fs (?root @ DLL_SOURCE_FOLDER @ [a @ ''.dll'']) = Some (File c5)" ..
  have entries: "staged_entries fs specs
      = [([''manifest.json''], c1), ([''icon.png''], c2), ([''README.md''], c3)]
        @ (case node_at fs (?root @ [''CHANGELOG.md'']) of
             Some (File c) \<Rightarrow> [([''CHANGELOG.md''], c)] | _ \<Rightarrow> [])
        @ [([a @ ''.dll''], c5)]"
    by (simp add: staged_entries_def specs_def DEFAULT_FILESPEC_def make_packager_def
        destination_name_def path_name_def l d c1 c2 c3 c5 split: option.splits node.splits)
  have "''..'' \<notin> set (zip_file_name ?self)"
    unfolding pf(3) using plain_root pz by (auto simp: proper_name_def)
  with pf(4) have archive: "read_file fs' (zip_file_name ?self)
      = Inr (Zip (staged_entries fs specs))"
    using pf(2) by (simp add: read_file_plain)
  have reads: "read_file fs (?root @ [''manifest.json'']) = Inr c1"
    "read_file fs (?root @ [''img'', ''icon.png'']) = Inr c2"
    "read_file fs (?root @ [''README.md'']) = Inr c3"
    "read_file fs (?root @ DLL_SOURCE_FOLDER @ [a @ ''.dll'']) = Inr c5"
    using c1 c2 c3 c5
      read_file_plain [OF env(1) plain(1)] read_file_plain [OF env(1) plain(2)]
      read_file_plain [OF env(1) plain(3)] read_file_plain [OF env(1) plain(5)]
    by blast+
  have names: "a @ ''.dll'' \<noteq> ''manifest.json''" "a @ ''.dll'' \<noteq> ''icon.png''"
    "a @ ''.dll'' \<noteq> ''README.md''" "a @ ''.dll'' \<noteq> ''CHANGELOG.md''"
    by (simp_all add: dll_name_differs)
  have exists: "path_exists fs (?root @ [''CHANGELOG.md''])
      \<longleftrightarrow> node_at fs (?root @ [''CHANGELOG.md'']) \<noteq> None"
    using env(1) plain(4) by (rule path_exists_plain)
  show ?thesis
  proof (cases "node_at fs (?root @ [''CHANGELOG.md''])")
    case None
    then have e: "staged_entries fs specs
        = [([''manifest.json''], c1), ([''icon.png''], c2), ([''README.md''], c3),
           ([a @ ''.dll''], c5)]"
      by (simp add: entries)
    have "distinct (map fst (staged_entries fs specs))"
      unfolding e using names by (simp add: names [symmetric])
    moreover have "set (staged_entries fs specs)
        = {([''manifest.json''], c1), ([''icon.png''], c2), ([''README.md''], c3),
           ([a @ ''.dll''], c5)}"
      unfolding e by simp
    ultimately show ?thesis
      using reads archive None exists by (simp add: l d)
  next
    case (Some nd)
    with there(7) obtain c4 where c4: "node_at fs (?root @ [''CHANGELOG.md'']) = Some (File c4)"
      by (cases nd) auto
    then have e: "staged_entries fs specs
        = [([''manifest.json''], c1), ([''icon.png''], c2), ([''README.md''], c3),
           ([''CHANGELOG.md''], c4), ([a @ ''.dll''], c5)]"
      by (simp add: entries)
    have r4: "read_file fs (?root @ [''CHANGELOG.md'']) = Inr c4"
      using c4 read_file_plain [OF env(1) plain(4)] by blast
    have "distinct (map fst (staged_entries fs specs))"
      unfolding e using names by (simp add: names [symmetric])
    moreover have "set (staged_entries fs specs)
        = {([''manifest.json''], c1), ([''icon.png''], c2), ([''README.md''], c3),
           ([''CHANGELOG.md''], c4), ([a @ ''.dll''], c5)}"
      unfolding e by simp
    ultimately show ?thesis
      using reads archive c4 exists r4 by (simp add: l d)
  qed
qed

subsection \<open>The pipeline and what it reads\<close>

lemma main_Inr:
  assumes "main w fs = (Inr u, fs')"
  shows "\<exists>fsm p. build_manifest w fs = (Inr (), fsm) \<and> new_file_packager w fsm = Inr p
    \<and> process w p fsm = (Inr u, fs')"
proof -
  obtain r fsm where b: "build_manifest w fs = (r, fsm)" by (cases "build_manifest w fs")
  with assms obtain u' where r: "r = Inr u'" by (cases r) (auto simp: main_def)
  from assms b r obtain p where "new_file_packager w fsm = Inr p" "process w p fsm = (Inr u, fs')"
    by (cases "new_file_packager w fsm") (auto simp: main_def)
  with b r show ?thesis by auto
qed

lemma retreive_field_iff:
  assumes "load_csproj w fs self (csproj_path w) = Inr (root, self')"
    and "field_holds root xp t"
  shows "retreive_csproj_element w fs self xp
    = (if t \<noteq> [] then Inr (t, self') else Inl (SysExit 1))"
proof -
  from field_holds_find [OF assms(2)] obtain e where
    "find root xp = Some e" "elem_text e = Some t"
    by blast
  with assms(1) show ?thesis by (simp add: retreive_csproj_element_def)
qed

lemma csproj_path_plain:
  assumes "list_all proper_name (project_root w)"
  shows "csproj_path w = project_root w @ [PROJECT_NAME w @ ''.csproj'']"
    and "''..'' \<notin> set (csproj_path w)"
    and "csproj_path w \<noteq> project_root w @ [''manifest.json'']"
    and "\<not> prefix (project_root w @ [''dist'']) (csproj_path w)"
proof -
  have "CHR ''/'' \<notin> set (PROJECT_NAME w)"
    using assms by (auto simp: PROJECT_NAME_def path_name_def list_all_iff proper_name_def)
  then have p: "proper_name (PROJECT_NAME w @ ''.csproj'')"
    by (intro long_name_proper) simp_all
  then show c: "csproj_path w = project_root w @ [PROJECT_NAME w @ ''.csproj'']"
    unfolding csproj_path_def by (rule pjoin_proper)
  show "''..'' \<notin> set (csproj_path w)"
    unfolding c using proper_plain [OF assms] p by (simp add: proper_name_def)
  have "last (PROJECT_NAME w @ ''.csproj'') \<noteq> last ''manifest.json''" by simp
  then have "PROJECT_NAME w @ ''.csproj'' \<noteq> ''manifest.json''" by metis
  then show "csproj_path w \<noteq> project_root w @ [''manifest.json'']" unfolding c by simp
  have "last (PROJECT_NAME w @ ''.csproj'') \<noteq> last ''dist''" by simp
  then have "PROJECT_NAME w @ ''.csproj'' \<noteq> ''dist''" by metis
  then show "\<not> prefix (project_root w @ [''dist'']) (csproj_path w)" unfolding c by simp
qed

lemma get_description_agree:
  assumes "tree fs" and "tree fs'" and "list_all proper_name (project_root w)"
    and "project_root w' = project_root w"
    and "node_at fs' (project_root w @ [''README.md'']) = node_at fs (project_root w @ [''README.md''])"
  shows "get_description w' fs' = get_description w fs"
proof -
  let ?p = "project_root w @ [''README.md'']"
  have j: "pjoin (project_root w) ''README.md'' = ?p" by (simp add: pjoin_flat)
  have plain: "''..'' \<notin> set ?p" using proper_plain [OF assms(3)] by simp
  show ?thesis
  proof (cases "node_at fs ?p")
    case None
    with assms(5) have "\<not> path_exists fs ?p" "\<not> path_exists fs' ?p"
      by (simp_all add: path_exists_plain [OF assms(1) plain] path_exists_plain [OF assms(2) plain])
    then show ?thesis by (simp add: get_description_def assms(4) j)
  next
    case (Some n)
    with assms(5) have "stat fs ?p = Inr (?p, n)" "stat fs' ?p = Inr (?p, n)"
      by (simp_all add: stat_plain_Some [OF assms(1) plain] stat_plain_Some [OF assms(2) plain])
    then show ?thesis by (simp add: get_description_def assms(4) j path_exists_def read_file_def)
  qed
qed

lemma staged_entries_agree:
  "(\<And>s. s \<in> set specs \<Longrightarrow> node_at fs' (path s) = node_at fs (path s)) \<Longrightarrow>
   staged_entries fs' specs = staged_entries fs specs"
  unfolding staged_entries_def by (intro arg_cong [where f = concat] map_cong) simp_all

lemma file_list_paths:
  assumes "list_all proper_name (project_root w)" and "CHR ''/'' \<notin> set a"
    and "s \<in> set (DEFAULT_FILESPEC w
       @ [\<lparr>path = dll_source_path (make_packager w a m v), required = True,
            rename_to = Some (dll_name (make_packager w a m v))\<rparr>])"
  shows "\<not> prefix (project_root w @ [''dist'']) (path s)"
proof -
  have "\<forall>s \<in> set (DEFAULT_FILESPEC w
       @ [\<lparr>path = dll_source_path (make_packager w a m v), required = True,
            rename_to = Some (dll_name (make_packager w a m v))\<rparr>]).
      \<not> prefix (project_root w @ [''dist'']) (path s)"
    by (intro ball_file_list [OF file_list [OF assms(1,2)],
          where P = "\<lambda>p d r. \<not> prefix (project_root w @ [''dist'']) p"])
      (auto simp: DLL_SOURCE_FOLDER_def)
  with assms(3) show ?thesis by blast
qed

lemma file_list_plain:
  assumes "list_all proper_name (project_root w)" and "CHR ''/'' \<notin> set a"
    and "s \<in> set (DEFAULT_FILESPEC w
       @ [\<lparr>path = dll_source_path (make_packager w a m v), required = True,
            rename_to = Some (dll_name (make_packager w a m v))\<rparr>])"
  shows "''..'' \<notin> set (path s)"
proof -
  have "\<forall>s \<in> set (DEFAULT_FILESPEC w
       @ [\<lparr>path = dll_source_path (make_packager w a m v), required = True,
            rename_to = Some (dll_name (make_packager w a m v))\<rparr>]).
      ''..'' \<notin> set (path s)"
    using proper_plain [OF assms(1)] dll_name_proper [OF assms(2)]
    by (intro ball_file_list [OF file_list [OF assms(1,2)],
          where P = "\<lambda>p d r. ''..'' \<notin> set p"])
      (auto simp: DLL_SOURCE_FOLDER_def proper_name_def)
  with assms(3) show ?thesis by blast
qed

subsection \<open>The ways a run fails\<close>

text \<open>
  C2. Every abort of \<^verbatim>\<open>process\<close> has exit status 1. Once \<^verbatim>\<open>prepare_file_spec\<close> has
  returned, the staging directory exists; whatever happens then, \<^verbatim>\<open>process\<close> ends
  normally or with \<^verbatim>\<open>sys.exit(1)\<close>, and the staging directory is gone from the file
  system it leaves. And each failure ends the process with \<^verbatim>\<open>sys.exit(1)\<close>: when the
  files before a file \<open>s\<close> of the list have been copied and \<open>s\<close> is required and does not
  exist, or exists and its copy raises; and when all files have been copied and the
  archive cannot be opened for writing. In particular, in a well-formed environment and
  with field texts that have no \<^verbatim>\<open>/\<close>, a run that finds a required file of its list
  missing (the manifest, the icon, the README or the DLL) ends with exit status 1.
\<close>

theorem staging_removed_on_every_exit:
  "(\<forall>a. fst (process w self fs) = Inl a \<longrightarrow> exit_code a = 1)
   \<and> (\<forall>file_spec fs1. prepare_file_spec w self fs = (Inr file_spec, fs1) \<longrightarrow>
        path_isdir fs1 (temp_dir self)
        \<and> \<not> path_exists (snd (process w self fs)) (temp_dir self)
        \<and> (fst (process w self fs) = Inr () \<or> fst (process w self fs) = Inl (SysExit 1))
        \<and> (\<forall>pre s post fsk.
              file_spec = pre @ s # post \<and> copy_loop self pre fs1 = (None, fsk)
              \<and> (if path_exists fsk (path s)
                  then \<exists>e. shutil_copy fsk (path s)
                              (pjoin (temp_dir self) (destination_name s)) = Inl e
                  else required s) \<longrightarrow>
              fst (process w self fs) = Inl (SysExit 1))
        \<and> (\<forall>fs2 e.
              copy_loop self file_spec fs1 = (None, fs2)
              \<and> open_write fs2 (zip_file_name self) = Inl e \<longrightarrow>
              fst (process w self fs) = Inl (SysExit 1)))
   \<and> (wf_env w fs \<and> self = make_packager w a m v \<and> CHR ''/'' \<notin> set (a @ m @ v)
        \<and> s \<in> set (DEFAULT_FILESPEC w
              @ [\<lparr>path = dll_source_path self, required = True,
                   rename_to = Some (dll_name self)\<rparr>])
        \<and> required s \<and> \<not> path_exists fs (path s) \<longrightarrow>
        (\<exists>x. fst (process w self fs) = Inl x \<and> exit_code x = 1))"
proof -
  have missing: "\<exists>x. fst (process w self fs) = Inl x"
    if env: "wf_env w fs" and self: "self = make_packager w a m v"
      and flat: "CHR ''/'' \<notin> set (a @ m @ v)"
      and s: "s \<in> set (DEFAULT_FILESPEC w
              @ [\<lparr>path = dll_source_path self, required = True,
                   rename_to = Some (dll_name self)\<rparr>])"
        "required s" "\<not> path_exists fs (path s)"
  proof (cases "fst (process w self fs)")
    case (Inl x)
    then show ?thesis by blast
  next
    case (Inr u)
    then have run: "process w (make_packager w a m v) fs = (Inr u, snd (process w self fs))"
      unfolding self by (simp add: prod_eq_iff)
    from env have fs: "tree fs" "names_ok fs" "distinct (map fst fs)"
      and root: "list_all proper_name (project_root w)"
      and cwd: "node_at fs (project_root w) = Some Dir"
      by (simp_all add: wf_env_def wf_fs_tree wf_fs_names wf_fs_distinct)
    from process_flat(1) [OF fs root cwd flat run refl] s(1,2)
    have "node_at fs (path s) \<noteq> None" unfolding self by blast
    moreover have "''..'' \<notin> set (path s)"
      using root _ s(1) [unfolded self] by (rule file_list_plain) (use flat in simp)
    ultimately have "path_exists fs (path s)" using fs(1) by (simp add: path_exists_plain)
    with s(3) show ?thesis by simp
  qed
  have main: "(\<forall>a. fst (process w self fs) = Inl a \<longrightarrow> exit_code a = 1)
   \<and> (\<forall>file_spec fs1. prepare_file_spec w self fs = (Inr file_spec, fs1) \<longrightarrow>
        path_isdir fs1 (temp_dir self)
        \<and> \<not> path_exists (snd (process w self fs)) (temp_dir self)
        \<and> (fst (process w self fs) = Inr () \<or> fst (process w self fs) = Inl (SysExit 1))
        \<and> (\<forall>pre s post fsk.
              file_spec = pre @ s # post \<and> copy_loop self pre fs1 = (None, fsk)
              \<and> (if path_exists fsk (path s)
                  then \<exists>e. shutil_copy fsk (path s)
                              (pjoin (temp_dir self) (destination_name s)) = Inl e
                  else required s) \<longrightarrow>
              fst (process w self fs) = Inl (SysExit 1))
        \<and> (\<forall>fs2 e.
              copy_loop self file_spec fs1 = (None, fs2)
              \<and> open_write fs2 (zip_file_name self) = Inl e \<longrightarrow>
              fst (process w self fs) = Inl (SysExit 1)))"
  proof (cases "prepare_file_spec w self fs")
  case (Pair r0 fs1)
  show ?thesis
  proof (cases r0)
    case (Inl a)
    with Pair prepare_file_spec_abort [of w self fs a fs1] show ?thesis
      by (auto simp: process_def)
  next
    case (Inr specs)
    with Pair prepare_file_spec_staging [of w self fs specs fs1] obtain q where
      q: "stat fs1 (temp_dir self) = Inr (q, Dir)" "q \<noteq> []"
      by blast
    then have isdir: "path_isdir fs1 (temp_dir self)" by (simp add: path_isdir_def)
    have prep: "prepare_file_spec w self fs = (Inr specs, fs1)" using Pair Inr by simp
    obtain r2 fs2 where c: "copy_files self specs fs1 = (r2, fs2)"
      by (cases "copy_files self specs fs1")
    from copy_files_staging [OF q c]
    consider (ok) "r2 = Inr ()" "stat fs2 (temp_dir self) = Inr (q, Dir)"
      | (failed) "r2 = Inl (SysExit 1)" "\<not> path_exists fs2 (temp_dir self)"
      by blast
    then have ends: "(fst (process w self fs) = Inr () \<or> fst (process w self fs) = Inl (SysExit 1))
        \<and> \<not> path_exists (snd (process w self fs)) (temp_dir self)"
    proof cases
      case ok
      obtain r3 fs3 where z: "zip_files self fs2 = (r3, fs3)"
        by (cases "zip_files self fs2")
      from zip_files_staging [OF ok(2) q(2) z] Pair Inr c ok(1) z show ?thesis
        by (auto simp: process_def)
    next
      case failed
      with Pair Inr c show ?thesis by (simp add: process_def)
    qed
    have copy: "fst (process w self fs) = Inl (SysExit 1)"
      if "specs = pre @ s # post" "copy_loop self pre fs1 = (None, fsk)"
        "if path_exists fsk (path s)
         then \<exists>e. shutil_copy fsk (path s) (pjoin (temp_dir self) (destination_name s)) = Inl e
         else required s"
      for pre s post fsk
    proof -
      have "fst (copy_loop self specs fs1) \<noteq> None"
        unfolding that(1) using that(2,3) by (rule copy_loop_fails_at)
      with process_Inr [OF prep] have "fst (process w self fs) \<noteq> Inr ()" by auto
      with ends show ?thesis by simp
    qed
    have zip: "fst (process w self fs) = Inl (SysExit 1)"
      if "copy_loop self specs fs1 = (None, fs2')" "open_write fs2' (zip_file_name self) = Inl e"
      for fs2' e
    proof -
      from zip_files_fails [OF that(2)] process_Inr [OF prep] that(1)
      have "fst (process w self fs) \<noteq> Inr ()" by auto
      with ends show ?thesis by simp
    qed
    have "\<forall>pre s post fsk.
        specs = pre @ s # post \<and> copy_loop self pre fs1 = (None, fsk)
        \<and> (if path_exists fsk (path s)
            then \<exists>e. shutil_copy fsk (path s)
                        (pjoin (temp_dir self) (destination_name s)) = Inl e
            else required s) \<longrightarrow>
        fst (process w self fs) = Inl (SysExit 1)"
      using copy by blast
    moreover have "\<forall>fs2 e.
        copy_loop self specs fs1 = (None, fs2)
        \<and> open_write fs2 (zip_file_name self) = Inl e \<longrightarrow>
        fst (process w self fs) = Inl (SysExit 1)"
      using zip by blast
    moreover have "\<forall>a. fst (process w self fs) = Inl a \<longrightarrow> exit_code a = 1"
      using ends by auto
    ultimately show ?thesis using Pair Inr isdir ends by simp
  qed
  qed
  from main have "\<forall>a. fst (process w self fs) = Inl a \<longrightarrow> exit_code a = 1" by blast
  with missing have "wf_env w fs \<and> self = make_packager w a m v \<and> CHR ''/'' \<notin> set (a @ m @ v)
        \<and> s \<in> set (DEFAULT_FILESPEC w
              @ [\<lparr>path = dll_source_path self, required = True,
                   rename_to = Some (dll_name self)\<rparr>])
        \<and> required s \<and> \<not> path_exists fs (path s) \<longrightarrow>
        (\<exists>x. fst (process w self fs) = Inl x \<and> exit_code x = 1)"
    by blast
  with main show ?thesis by blast
qed

subsection \<open>Two runs, one after the other\<close>

text \<open>What one run does to a file system that is sound, with fields that are file names.\<close>

lemma main_flat:
  assumes fs: "tree fs" "names_ok fs" "distinct (map fst fs)"
    and root: "list_all proper_name (project_root w)" "node_at fs (project_root w) = Some Dir"
    and src: "node_at fs (csproj_path w) = Some (File (Bytes s))" "et_parse w s = Some tr"
    and fields: "field_holds tr (''PropertyGroup'', ''AssemblyName'') a"
      "field_holds tr (''PropertyGroup'', ''Product'') m"
      "field_holds tr (''PropertyGroup'', ''Version'') v"
    and flat: "CHR ''/'' \<notin> set (a @ m @ v)"
    and run: "main w fs = (Inr u, fs')"
    and specs: "specs = DEFAULT_FILESPEC w
       @ [\<lparr>path = dll_source_path (make_packager w a m v), required = True,
            rename_to = Some (dll_name (make_packager w a m v))\<rparr>]"
  shows "\<exists>description website_url fsm.
      get_description w fs = Inr description
    \<and> get_github_url (git_remote w) = Inr website_url
    \<and> (\<forall>k. node_at fsm k
          = (if k = project_root w @ [''manifest.json'']
             then Some (File (Bytes (json_dumps (manifest_dict m description v website_url))))
             else node_at fs k))
    \<and> node_at fs' (zip_file_name (make_packager w a m v))
        = Some (File (Zip (staged_entries fsm specs)))
    \<and> tree fs' \<and> names_ok fs' \<and> distinct (map fst fs')
    \<and> (\<forall>k. \<not> prefix (project_root w @ [''dist'']) k \<longrightarrow> node_at fs' k = node_at fsm k)"
proof -
  let ?root = "project_root w"
  let ?mp = "?root @ [''manifest.json'']"
  let ?c = "\<lparr>csproj_root = Some tr\<rparr>"
  note cp = csproj_path_plain [OF root(1)]
  have plain_root: "''..'' \<notin> set ?root" using root(1) by (rule proper_plain)
  have plain_mp: "''..'' \<notin> set ?mp" using plain_root by simp
  have mp: "pjoin ?root ''manifest.json'' = ?mp" by (simp add: pjoin_flat)
  from main_Inr [OF run] obtain fsm p where
    b: "build_manifest w fs = (Inr (), fsm)"
    and np: "new_file_packager w fsm = Inr p"
    and pr: "process w p fsm = (Inr u, fs')"
    by blast
  from build_manifest_Inr [OF b] obtain name description version_number website_url c1 c2
    where g: "get_mod_name w fs \<lparr>csproj_root = None\<rparr> = Inr (name, c1)"
      "get_description w fs = Inr description"
      "get_dll_version w fs c1 = Inr (version_number, c2)"
      "get_github_url (git_remote w) = Inr website_url"
      and wr: "write_file fs ?mp
          (Bytes (json_dumps (manifest_dict name description version_number website_url)))
          = Inr fsm"
    unfolding mp by blast
  have rd: "read_file fs (csproj_path w) = Inr (Bytes s)"
    using src(1) by (simp add: read_file_plain [OF fs(1) cp(2)])
  have load: "load_csproj w fs \<lparr>csproj_root = None\<rparr> (csproj_path w) = Inr (tr, ?c)"
    using rd src(2) by (rule load_csproj_fresh)
  have cached: "load_csproj w fs' ?c (csproj_path w) = Inr (tr, ?c)" for fs'
    by (rule load_csproj_cached)
  from g(1) retreive_field_iff [OF load fields(2)]
  have n: "name = m" "c1 = ?c" "m \<noteq> []"
    by (auto simp: get_mod_name_def split: if_splits)
  from g(3) retreive_field_iff [OF cached fields(3), of fs]
  have ver: "version_number = v" "v \<noteq> []"
    by (auto simp: get_dll_version_def n(2) split: if_splits)
  let ?mf = "Bytes (json_dumps (manifest_dict m description v website_url))"
  from wr obtain q where q: "resolve fs ?mp = Inr q" "node_at fs q \<noteq> Some Dir"
    "node_at fs (butlast q) = Some Dir" "fsm = fd_write fs q ?mf"
    unfolding n ver by (auto simp: write_file_Inr)
  from resolve_plain [OF plain_mp q(1)] have qmp: "q = ?mp" .
  note q = q [unfolded qmp]
  have nm: "node_at fsm k = (if k = ?mp then Some (File ?mf) else node_at fs k)" for k
    unfolding q(4) by (simp add: node_at_fd_write)
  have tm: "tree fsm" unfolding q(4) using fs(1) q(2,3) by (rule tree_fd_write)
  have "list_all proper_name ?mp" using root(1) by (simp add: proper_name_def)
  with fs(2) have nam: "names_ok fsm" unfolding q(4) by (rule names_ok_fd_write)
  have dm: "distinct (map fst fsm)" unfolding q(4) using fs(3) by (rule distinct_fd_write)
  have rm: "node_at fsm ?root = Some Dir" using root(2) by (simp add: nm)
  have "node_at fsm (csproj_path w) = Some (File (Bytes s))"
    using src(1) cp(3) by (simp add: nm)
  then have rdm: "read_file fsm (csproj_path w) = Inr (Bytes s)"
    by (simp add: read_file_plain [OF tm cp(2)])
  have loadm: "load_csproj w fsm \<lparr>csproj_root = None\<rparr> (csproj_path w) = Inr (tr, ?c)"
    using rdm src(2) by (rule load_csproj_fresh)
  from np obtain x where "get_dll_name w fsm \<lparr>csproj_root = None\<rparr> = Inr x"
    by (auto simp: new_file_packager_def split: sum.splits)
  with retreive_field_iff [OF loadm fields(1)] have a: "a \<noteq> []"
    by (auto simp: get_dll_name_def split: if_splits)
  from field_holds_find [OF fields(1)] field_holds_find [OF fields(2)]
    field_holds_find [OF fields(3)]
  obtain ea ep ev where
    f: "find tr (''PropertyGroup'', ''AssemblyName'') = Some ea" "elem_text ea = Some a"
      "find tr (''PropertyGroup'', ''Product'') = Some ep" "elem_text ep = Some m"
      "find tr (''PropertyGroup'', ''Version'') = Some ev" "elem_text ev = Some v"
    by blast
  have "new_file_packager w fsm = Inr (make_packager w a m v)"
    using loadm f(1,2) a f(3,4) n(3) f(5,6) ver(2) by (rule new_file_packager_eq)
  with np have p: "p = make_packager w a m v" by simp
  note pf = process_flat [OF tm nam dm root(1) rm flat pr [unfolded p] specs]
  from g(2,4) nm pf(2,4,5,6,7) show ?thesis by blast
qed


text \<open>
  C8, amended. In a well-formed environment, with a project file whose three fields hold
  texts without \<^verbatim>\<open>/\<close>: when a run ends normally, and a second run, started later in the
  file system the first one has left, ends normally too, then after each of them
  \<^verbatim>\<open>manifest.json\<close> holds the same text and the archive \<^verbatim>\<open>dist/{mod name}-{version}.zip\<close>
  holds the same entries.
\<close>

theorem successive_runs_agree:
  assumes env: "wf_env w fs"
    and src: "read_file fs (csproj_path w) = Inr (Bytes s)" "et_parse w s = Some tr"
    and fields: "field_holds tr (''PropertyGroup'', ''AssemblyName'') a"
      "field_holds tr (''PropertyGroup'', ''Product'') m"
      "field_holds tr (''PropertyGroup'', ''Version'') v"
    and flat: "CHR ''/'' \<notin> set (a @ m @ v)"
    and run1: "main w fs = (Inr u1, fs1)"
    and run2: "main (w\<lparr>now := later\<rparr>) fs1 = (Inr u2, fs2)"
  shows "\<exists>manifest entries.
      read_file fs1 (pjoin (project_root w) ''manifest.json'') = Inr (Bytes manifest)
    \<and> read_file fs2 (pjoin (project_root w) ''manifest.json'') = Inr (Bytes manifest)
    \<and> read_file fs1 (pjoin (pjoin (project_root w) ''dist'') (m @ ''-'' @ v @ ''.zip''))
        = Inr (Zip entries)
    \<and> read_file fs2 (pjoin (pjoin (project_root w) ''dist'') (m @ ''-'' @ v @ ''.zip''))
        = Inr (Zip entries)"
proof -
  let ?w' = "w\<lparr>now := later\<rparr>"
  let ?root = "project_root w"
  let ?dist = "?root @ [''dist'']"
  let ?mp = "?root @ [''manifest.json'']"
  let ?rp = "?root @ [''README.md'']"
  let ?zp = "?dist @ [m @ ''-'' @ v @ ''.zip'']"
  from env have fs: "tree fs" "names_ok fs" "distinct (map fst fs)"
    and root: "list_all proper_name ?root"
    and cwd: "node_at fs ?root = Some Dir"
    by (simp_all add: wf_env_def wf_fs_tree wf_fs_names wf_fs_distinct)
  note cp = csproj_path_plain [OF root]
  have plain_root: "''..'' \<notin> set ?root" using root by (rule proper_plain)
  have plain_mp: "''..'' \<notin> set ?mp" using plain_root by simp
  from flat have pz: "proper_name (m @ ''-'' @ v @ ''.zip'')" by (intro zip_name_proper) simp
  have plain_zp: "''..'' \<notin> set ?zp" using plain_root pz by (auto simp: proper_name_def)
  have mp: "pjoin ?root ''manifest.json'' = ?mp" by (simp add: pjoin_flat)
  have zp: "pjoin (pjoin ?root ''dist'') (m @ ''-'' @ v @ ''.zip'') = ?zp"
    using pjoin_proper [OF pz, of ?dist] by (simp add: pjoin_flat)
  have zn: "zip_file_name (make_packager w a m v) = ?zp"
    "zip_file_name (make_packager ?w' a m v) = ?zp"
    using zp by (simp_all add: make_packager_def)
  define specs where "specs = DEFAULT_FILESPEC w
       @ [\<lparr>path = dll_source_path (make_packager w a m v), required = True,
            rename_to = Some (dll_name (make_packager w a m v))\<rparr>]"
  have specs': "specs = DEFAULT_FILESPEC ?w'
       @ [\<lparr>path = dll_source_path (make_packager ?w' a m v), required = True,
            rename_to = Some (dll_name (make_packager ?w' a m v))\<rparr>]"
    by (simp add: specs_def DEFAULT_FILESPEC_def make_packager_def)
  have outside: "\<not> prefix ?dist (path sp)" if "sp \<in> set specs" for sp
    using root _ that [unfolded specs_def] by (rule file_list_paths) (use flat in simp)
  have csproj: "node_at fs (csproj_path w) = Some (File (Bytes s))"
    using src(1) by (simp add: read_file_plain [OF fs(1) cp(2)])
  from main_flat [OF fs root cwd csproj src(2) fields flat run1 specs_def]
  obtain description website_url fsm where
    one: "get_description w fs = Inr description"
      "get_github_url (git_remote w) = Inr website_url"
      "\<And>k. node_at fsm k
          = (if k = ?mp
             then Some (File (Bytes (json_dumps (manifest_dict m description v website_url))))
             else node_at fs k)"
      "node_at fs1 ?zp = Some (File (Zip (staged_entries fsm specs)))"
      "tree fs1" "names_ok fs1" "distinct (map fst fs1)"
      "\<And>k. \<not> prefix ?dist k \<Longrightarrow> node_at fs1 k = node_at fsm k"
    unfolding zn by blast
  have mp_out: "\<not> prefix ?dist ?mp" "\<not> prefix ?dist ?root" "\<not> prefix ?dist ?rp"
    "?root \<noteq> ?mp" "?rp \<noteq> ?mp"
    by (simp_all add: prefix_def)
  have cwd1: "node_at fs1 (project_root ?w') = Some Dir"
    using one(8) [OF mp_out(2)] one(3) [of ?root] cwd mp_out(4) by simp
  have csproj1: "node_at fs1 (csproj_path ?w') = Some (File (Bytes s))"
    using one(8) [OF cp(4)] one(3) [of "csproj_path w"] csproj cp(3)
    by (simp add: csproj_path_def PROJECT_NAME_def)
  have root': "list_all proper_name (project_root ?w')" using root by simp
  have parse': "et_parse ?w' s = Some tr" using src(2) by simp
  have sel: "project_root ?w' = ?root" "git_remote ?w' = git_remote w" by simp_all
  from main_flat [OF one(5,6,7) root' cwd1 csproj1 parse' fields flat run2 specs']
  obtain description' website_url' fsm' where
    two: "get_description ?w' fs1 = Inr description'"
      "get_github_url (git_remote w) = Inr website_url'"
      "\<And>k. node_at fsm' k
          = (if k = ?mp
             then Some (File (Bytes (json_dumps (manifest_dict m description' v website_url'))))
             else node_at fs1 k)"
      "node_at fs2 ?zp = Some (File (Zip (staged_entries fsm' specs)))"
      "tree fs2"
      "\<And>k. \<not> prefix ?dist k \<Longrightarrow> node_at fs2 k = node_at fsm' k"
    unfolding zn sel by blast
  have "node_at fs1 ?rp = node_at fs ?rp"
    using one(8) [OF mp_out(3)] one(3) [of ?rp] mp_out(5) by simp
  with fs(1) one(5) root have "get_description ?w' fs1 = get_description w fs"
    by (intro get_description_agree) simp_all
  with one(1) two(1) have d: "description' = description" by simp
  from one(2) two(2) have u: "website_url' = website_url" by simp
  let ?mf = "json_dumps (manifest_dict m description v website_url)"
  have same: "node_at fsm' k = node_at fsm k" if "\<not> prefix ?dist k" for k
    using two(3) [of k] one(3) [of k] one(8) [OF that] by (simp add: d u)
  have "staged_entries fsm' specs = staged_entries fsm specs"
    using same outside by (intro staged_entries_agree) blast
  with two(4) have zip2: "node_at fs2 ?zp = Some (File (Zip (staged_entries fsm specs)))"
    by simp
  have m1: "node_at fs1 ?mp = Some (File (Bytes ?mf))"
    using one(8) [OF mp_out(1)] one(3) [of ?mp] by simp
  have m2: "node_at fs2 ?mp = Some (File (Bytes ?mf))"
    using two(6) [OF mp_out(1)] two(3) [of ?mp] by (simp add: d u)
  have "read_file fs1 ?mp = Inr (Bytes ?mf)"
    using m1 by (simp add: read_file_plain [OF one(5) plain_mp])
  moreover have "read_file fs2 ?mp = Inr (Bytes ?mf)"
    using m2 by (simp add: read_file_plain [OF two(5) plain_mp])
  moreover have "read_file fs1 ?zp = Inr (Zip (staged_entries fsm specs))"
    using one(4) read_file_plain [OF one(5) plain_zp] by blast
  moreover have "read_file fs2 ?zp = Inr (Zip (staged_entries fsm specs))"
    using zip2 read_file_plain [OF two(5) plain_zp] by blast
  ultimately show ?thesis unfolding mp zp by blast
qed

section \<open>Runs of the sample project\<close>

subsection \<open>The packager\<close>

lemma sample_packager_eq:
  "sample_packager =
     \<lparr>dll_name = ''LoadIntoLevel.dll'',
      dll_source_path = [''work'', ''Mod'', ''bin'', ''Debug'', ''net472'', ''LoadIntoLevel.dll''],
      dist_dir = [''work'', ''Mod'', ''dist''],
      temp_dir = [''work'', ''Mod'', ''dist'', ''temp_package_20260102030405''],
      zip_file_name = [''work'', ''Mod'', ''dist'', ''Load Into Level-1.0.0.zip'']\<rparr>"
  by (simp add: sample_packager_def make_packager_def sample_world_def DLL_SOURCE_FOLDER_def
      pjoin_def parts_def str_startswith_def strftime_def digits2_def decimal.simps digit_def)

lemmas run_eval =
  process_def prepare_file_spec_def fs_eval mkdir_parents.simps copy_files_def zip_files_def
  DEFAULT_FILESPEC_def sample_world_def destination_name_def sample_fs_def staged_fs_def

lemma sample_prepare:
  "prepare_file_spec sample_world sample_packager staged_fs
   = (Inr (DEFAULT_FILESPEC sample_world
           @ [\<lparr>path = dll_source_path sample_packager, required = True,
                rename_to = Some (dll_name sample_packager)\<rparr>]),
      staged_fs @ [([''work'', ''Mod'', ''dist''], Dir),
                   ([''work'', ''Mod'', ''dist'', ''temp_package_20260102030405''], Dir)])"
  unfolding sample_packager_eq
  by (simp add: prepare_file_spec_def staged_fs_def sample_fs_def fs_eval mkdir_parents.simps)

lemma sample_process: "process sample_world sample_packager staged_fs = (Inr (), packaged_fs)"
  unfolding sample_packager_eq by (simp add: run_eval packaged_fs_def)

lemma no_icon_prepare:
  "prepare_file_spec sample_world sample_packager no_icon_fs
   = (Inr (DEFAULT_FILESPEC sample_world
           @ [\<lparr>path = dll_source_path sample_packager, required = True,
                rename_to = Some (dll_name sample_packager)\<rparr>]),
      no_icon_fs @ [([''work'', ''Mod'', ''dist''], Dir),
                    ([''work'', ''Mod'', ''dist'', ''temp_package_20260102030405''], Dir)])"
  unfolding sample_packager_eq
  by (simp add: prepare_file_spec_def no_icon_fs_def staged_fs_def sample_fs_def fs_eval
      mkdir_parents.simps)

lemma no_icon_process:
  "process sample_world sample_packager no_icon_fs
   = (Inl (SysExit 1), no_icon_fs @ [([''work'', ''Mod'', ''dist''], Dir)])"
  unfolding sample_packager_eq by (simp add: run_eval no_icon_fs_def)

lemma readme_dir_prepare:
  "prepare_file_spec sample_world sample_packager readme_dir_fs
   = (Inr (DEFAULT_FILESPEC sample_world
           @ [\<lparr>path = dll_source_path sample_packager, required = True,
                rename_to = Some (dll_name sample_packager)\<rparr>]),
      readme_dir_fs @ [([''work'', ''Mod'', ''dist''], Dir),
                       ([''work'', ''Mod'', ''dist'', ''temp_package_20260102030405''], Dir)])"
  unfolding sample_packager_eq
  by (simp add: prepare_file_spec_def readme_dir_fs_def staged_fs_def sample_fs_def fs_eval
      mkdir_parents.simps)

lemma readme_dir_process:
  "process sample_world sample_packager readme_dir_fs
   = (Inl (SysExit 1), readme_dir_fs @ [([''work'', ''Mod'', ''dist''], Dir)])"
  unfolding sample_packager_eq by (simp add: run_eval readme_dir_fs_def)

lemma zip_dir_prepare:
  "prepare_file_spec sample_world sample_packager zip_dir_fs
   = (Inr (DEFAULT_FILESPEC sample_world
           @ [\<lparr>path = dll_source_path sample_packager, required = True,
                rename_to = Some (dll_name sample_packager)\<rparr>]),
      zip_dir_fs @ [([''work'', ''Mod'', ''dist'', ''temp_package_20260102030405''], Dir)])"
  unfolding sample_packager_eq
  by (simp add: prepare_file_spec_def zip_dir_fs_def staged_fs_def sample_fs_def fs_eval
      mkdir_parents.simps)

lemma zip_dir_process:
  "process sample_world sample_packager zip_dir_fs = (Inl (SysExit 1), zip_dir_fs)"
  unfolding sample_packager_eq by (simp add: run_eval zip_dir_fs_def)

text \<open>
  Four runs: the sample project; the project without its icon (a required file is
  missing); the project whose README is a directory (the copy raises); the project with
  a directory in the place of the archive (the archive cannot be opened).
\<close>

theorem staging_removed_on_every_exit_witness:
  "path_isdir (snd (prepare_file_spec sample_world sample_packager staged_fs))
     (temp_dir sample_packager)
   \<and> fst (process sample_world sample_packager staged_fs) = Inr ()
   \<and> \<not> path_exists (snd (process sample_world sample_packager staged_fs))
       (temp_dir sample_packager)
   \<and> path_isdir (snd (prepare_file_spec sample_world sample_packager no_icon_fs))
       (temp_dir sample_packager)
   \<and> fst (process sample_world sample_packager no_icon_fs) = Inl (SysExit 1)
   \<and> exit_code (SysExit 1) = 1
   \<and> \<not> path_exists (snd (process sample_world sample_packager no_icon_fs))
       (temp_dir sample_packager)
   \<and> path_isdir (snd (prepare_file_spec sample_world sample_packager readme_dir_fs))
       (temp_dir sample_packager)
   \<and> fst (process sample_world sample_packager readme_dir_fs) = Inl (SysExit 1)
   \<and> \<not> path_exists (snd (process sample_world sample_packager readme_dir_fs))
       (temp_dir sample_packager)
   \<and> path_isdir (snd (prepare_file_spec sample_world sample_packager zip_dir_fs))
       (temp_dir sample_packager)
   \<and> fst (process sample_world sample_packager zip_dir_fs) = Inl (SysExit 1)
   \<and> \<not> path_exists (snd (process sample_world sample_packager zip_dir_fs))
       (temp_dir sample_packager)"
proof -
  note one = staging_removed_on_every_exit [of sample_world sample_packager staged_fs]
  note two = staging_removed_on_every_exit [of sample_world sample_packager no_icon_fs]
  note three = staging_removed_on_every_exit [of sample_world sample_packager readme_dir_fs]
  note four = staging_removed_on_every_exit [of sample_world sample_packager zip_dir_fs]
  have "path_isdir (snd (prepare_file_spec sample_world sample_packager staged_fs))
        (temp_dir sample_packager)
      \<and> \<not> path_exists (snd (process sample_world sample_packager staged_fs))
        (temp_dir sample_packager)"
    using one sample_prepare by simp
  moreover have "path_isdir (snd (prepare_file_spec sample_world sample_packager no_icon_fs))
        (temp_dir sample_packager)
      \<and> \<not> path_exists (snd (process sample_world sample_packager no_icon_fs))
        (temp_dir sample_packager)"
    using two no_icon_prepare by simp
  moreover have "path_isdir (snd (prepare_file_spec sample_world sample_packager readme_dir_fs))
        (temp_dir sample_packager)
      \<and> \<not> path_exists (snd (process sample_world sample_packager readme_dir_fs))
        (temp_dir sample_packager)"
    using three readme_dir_prepare by simp
  moreover have "path_isdir (snd (prepare_file_spec sample_world sample_packager zip_dir_fs))
        (temp_dir sample_packager)
      \<and> \<not> path_exists (snd (process sample_world sample_packager zip_dir_fs))
        (temp_dir sample_packager)"
    using four zip_dir_prepare by simp
  ultimately show ?thesis
    by (simp add: sample_process no_icon_process readme_dir_process zip_dir_process)
qed

lemma sample_env: "wf_env sample_world staged_fs"
  by (simp add: wf_env_def wf_fs_def sample_world_def staged_fs_def sample_fs_def
      proper_name_def node_at_def)



lemma changelog_env: "wf_env sample_world changelog_fs"
  by (simp add: wf_env_def wf_fs_def sample_world_def changelog_fs_def staged_fs_def
      sample_fs_def proper_name_def node_at_def)

lemma changelog_process:
  "process sample_world sample_packager changelog_fs = (Inr (), changelog_packaged_fs)"
  unfolding sample_packager_eq
  by (simp add: run_eval changelog_fs_def changelog_packaged_fs_def)

theorem archive_holds_the_file_list_witness:
  "wf_env sample_world staged_fs
   \<and> process sample_world sample_packager staged_fs = (Inr (), packaged_fs)
   \<and> \<not> path_exists staged_fs (pjoin (project_root sample_world) ''CHANGELOG.md'')
   \<and> (\<exists>entries.
        read_file packaged_fs (zip_file_name sample_packager) = Inr (Zip entries)
        \<and> distinct (map fst entries)
        \<and> set entries = {([''manifest.json''], Bytes sample_manifest),
             ([''icon.png''], Bytes ''PNG''), ([''README.md''], Bytes sample_readme),
             ([''LoadIntoLevel.dll''], Bytes ''MZ'')})
   \<and> wf_env sample_world changelog_fs
   \<and> process sample_world sample_packager changelog_fs = (Inr (), changelog_packaged_fs)
   \<and> path_exists changelog_fs (pjoin (project_root sample_world) ''CHANGELOG.md'')
   \<and> (\<exists>entries.
        read_file changelog_packaged_fs (zip_file_name sample_packager) = Inr (Zip entries)
        \<and> distinct (map fst entries)
        \<and> set entries = {([''manifest.json''], Bytes sample_manifest),
             ([''icon.png''], Bytes ''PNG''), ([''README.md''], Bytes sample_readme),
             ([''CHANGELOG.md''], Bytes ''# 1.0.0\<newline>''),
             ([''LoadIntoLevel.dll''], Bytes ''MZ'')})"
proof -
  have slash: "CHR ''/'' \<notin> set (''LoadIntoLevel'' @ ''Load Into Level'' @ ''1.0.0'')" by simp
  have no: "\<not> path_exists staged_fs (pjoin (project_root sample_world) ''CHANGELOG.md'')"
    by (simp add: sample_world_def staged_fs_def sample_fs_def fs_eval)
  have yes: "path_exists changelog_fs (pjoin (project_root sample_world) ''CHANGELOG.md'')"
    by (simp add: sample_world_def changelog_fs_def staged_fs_def sample_fs_def fs_eval)
  have sources:
    "read_file staged_fs (pjoin (project_root sample_world) ''manifest.json'')
      = Inr (Bytes sample_manifest)"
    "read_file staged_fs (pjoin (pjoin (project_root sample_world) ''img'') ''icon.png'')
      = Inr (Bytes ''PNG'')"
    "read_file staged_fs (pjoin (project_root sample_world) ''README.md'')
      = Inr (Bytes sample_readme)"
    "read_file staged_fs
       (pjoin (project_root sample_world @ DLL_SOURCE_FOLDER) (''LoadIntoLevel'' @ ''.dll''))
      = Inr (Bytes ''MZ'')"
    by (simp_all add: sample_world_def staged_fs_def sample_fs_def fs_eval
        DLL_SOURCE_FOLDER_def)
  have sources':
    "read_file changelog_fs (pjoin (project_root sample_world) ''manifest.json'')
      = Inr (Bytes sample_manifest)"
    "read_file changelog_fs (pjoin (pjoin (project_root sample_world) ''img'') ''icon.png'')
      = Inr (Bytes ''PNG'')"
    "read_file changelog_fs (pjoin (project_root sample_world) ''README.md'')
      = Inr (Bytes sample_readme)"
    "read_file changelog_fs
       (pjoin (project_root sample_world @ DLL_SOURCE_FOLDER) (''LoadIntoLevel'' @ ''.dll''))
      = Inr (Bytes ''MZ'')"
    "read_file changelog_fs (pjoin (project_root sample_world) ''CHANGELOG.md'')
      = Inr (Bytes ''# 1.0.0\<newline>'')"
    by (simp_all add: sample_world_def changelog_fs_def staged_fs_def sample_fs_def fs_eval
        DLL_SOURCE_FOLDER_def)
  from archive_holds_the_file_list
    [OF sample_env slash sample_process [unfolded sample_packager_def]]
  have one: "\<exists>entries.
      read_file packaged_fs (zip_file_name sample_packager) = Inr (Zip entries)
      \<and> distinct (map fst entries)
      \<and> set entries = {([''manifest.json''], Bytes sample_manifest),
           ([''icon.png''], Bytes ''PNG''), ([''README.md''], Bytes sample_readme),
           ([''LoadIntoLevel.dll''], Bytes ''MZ'')}"
    unfolding sample_packager_def [symmetric] using no sources by auto
  from archive_holds_the_file_list
    [OF changelog_env slash changelog_process [unfolded sample_packager_def]]
  have two: "\<exists>entries.
      read_file changelog_packaged_fs (zip_file_name sample_packager) = Inr (Zip entries)
      \<and> distinct (map fst entries)
      \<and> set entries = {([''manifest.json''], Bytes sample_manifest),
           ([''icon.png''], Bytes ''PNG''), ([''README.md''], Bytes sample_readme),
           ([''CHANGELOG.md''], Bytes ''# 1.0.0\<newline>''),
           ([''LoadIntoLevel.dll''], Bytes ''MZ'')}"
    unfolding sample_packager_def [symmetric] using yes sources' by auto
  from one two no yes sample_env changelog_env sample_process changelog_process
  show ?thesis by blast
qed

subsection \<open>An assembly name that leads out of the output directory\<close>

lemma escape_packager_eq:
  "make_packager sample_world ''../x'' ''Load Into Level'' ''1.0.0'' =
     \<lparr>dll_name = ''../x.dll'',
      dll_source_path = [''work'', ''Mod'', ''bin'', ''Debug'', ''net472'', ''..'', ''x.dll''],
      dist_dir = [''work'', ''Mod'', ''dist''],
      temp_dir = [''work'', ''Mod'', ''dist'', ''temp_package_20260102030405''],
      zip_file_name = [''work'', ''Mod'', ''dist'', ''Load Into Level-1.0.0.zip'']\<rparr>"
  by (simp add: make_packager_def sample_world_def DLL_SOURCE_FOLDER_def
      pjoin_def parts_def str_startswith_def strftime_def digits2_def decimal.simps digit_def)

lemma escape_new_file_packager:
  "new_file_packager sample_world escape_fs
   = Inr (make_packager sample_world ''../x'' ''Load Into Level'' ''1.0.0'')"
proof (rule new_file_packager_eq)
  show "load_csproj sample_world escape_fs \<lparr>csproj_root = None\<rparr> (csproj_path sample_world)
      = Inr (escape_csproj, \<lparr>csproj_root = Some escape_csproj\<rparr>)"
    by (simp add: load_csproj_def csproj_path_def PROJECT_NAME_def sample_world_def
        escape_fs_def sample_parse_def fs_eval)
  show "find escape_csproj (''PropertyGroup'', ''AssemblyName'')
      = Some (Element ''AssemblyName'' (Some ''../x'') [])"
    "find escape_csproj (''PropertyGroup'', ''Product'')
      = Some (Element ''Product'' (Some ''Load Into Level'') [])"
    "find escape_csproj (''PropertyGroup'', ''Version'')
      = Some (Element ''Version'' (Some ''1.0.0'') [])"
    by (simp_all add: find_def findall_def escape_csproj_def)
qed simp_all

lemma escape_process:
  "process sample_world (make_packager sample_world ''../x'' ''Load Into Level'' ''1.0.0'')
     escape_fs
   = (Inr (), escaped_fs)"
  unfolding escape_packager_eq
  by (simp add: process_def prepare_file_spec_def fs_eval mkdir_parents.simps copy_files_def
      zip_files_def DEFAULT_FILESPEC_def sample_world_def destination_name_def escape_fs_def
      escaped_fs_def)

text \<open>
  C1, as the claim states it, fails. The project file \<^verbatim>\<open><Escape/>\<close> has the assembly name
  \<^verbatim>\<open>../x\<close>. The run ends normally; the DLL has been copied to
  \<^verbatim>\<open>temp_package_20260102030405/../x.dll\<close>, which is \<^verbatim>\<open>dist/x.dll\<close>, outside the staging
  directory, and the archive has the manifest, the icon and the README and no DLL.
\<close>

theorem archive_without_dll:
  "wf_env sample_world escape_fs
   \<and> new_file_packager sample_world escape_fs
     = Inr (make_packager sample_world ''../x'' ''Load Into Level'' ''1.0.0'')
   \<and> process sample_world (make_packager sample_world ''../x'' ''Load Into Level'' ''1.0.0'')
       escape_fs
     = (Inr (), escaped_fs)
   \<and> read_file escaped_fs
       (zip_file_name (make_packager sample_world ''../x'' ''Load Into Level'' ''1.0.0''))
     = Inr (Zip [([''manifest.json''], Bytes sample_manifest),
                 ([''icon.png''], Bytes ''PNG''),
                 ([''README.md''], Bytes sample_readme)])
   \<and> read_file escaped_fs [''work'', ''Mod'', ''dist'', ''x.dll''] = Inr (Bytes ''MZ'')"
proof -
  have "wf_env sample_world escape_fs"
    by (simp add: wf_env_def wf_fs_def sample_world_def escape_fs_def proper_name_def
        node_at_def)
  moreover have "read_file escaped_fs
       (zip_file_name (make_packager sample_world ''../x'' ''Load Into Level'' ''1.0.0''))
     = Inr (Zip [([''manifest.json''], Bytes sample_manifest),
                 ([''icon.png''], Bytes ''PNG''),
                 ([''README.md''], Bytes sample_readme)])"
    unfolding escape_packager_eq by (simp add: escaped_fs_def escape_fs_def fs_eval)
  moreover have "read_file escaped_fs [''work'', ''Mod'', ''dist'', ''x.dll''] = Inr (Bytes ''MZ'')"
    by (simp add: escaped_fs_def escape_fs_def fs_eval)
  ultimately show ?thesis
    using escape_new_file_packager escape_process by simp
qed

subsection \<open>The manifest\<close>

lemma sample_getters:
  "get_mod_name sample_world (sample_fs ''<Project/>'' ''LoadIntoLevel.dll'')
     \<lparr>csproj_root = None\<rparr> = Inr (''Load Into Level'', \<lparr>csproj_root = Some sample_csproj\<rparr>)"
  "get_dll_name sample_world (sample_fs ''<Project/>'' ''LoadIntoLevel.dll'')
     \<lparr>csproj_root = None\<rparr> = Inr (''LoadIntoLevel.dll'', \<lparr>csproj_root = Some sample_csproj\<rparr>)"
  "get_dll_version sample_world (sample_fs ''<Project/>'' ''LoadIntoLevel.dll'')
     \<lparr>csproj_root = Some sample_csproj\<rparr> = Inr (''1.0.0'', \<lparr>csproj_root = Some sample_csproj\<rparr>)"
  "get_mod_name sample_world (sample_fs ''<Project/>'' ''LoadIntoLevel.dll'')
     \<lparr>csproj_root = Some sample_csproj\<rparr>
   = Inr (''Load Into Level'', \<lparr>csproj_root = Some sample_csproj\<rparr>)"
  "get_dll_name sample_world (sample_fs ''<Project/>'' ''LoadIntoLevel.dll'')
     \<lparr>csproj_root = Some sample_csproj\<rparr>
   = Inr (''LoadIntoLevel.dll'', \<lparr>csproj_root = Some sample_csproj\<rparr>)"
  by (simp_all add: get_mod_name_def get_dll_name_def get_dll_version_def
      retreive_csproj_element_def load_csproj_def csproj_path_def PROJECT_NAME_def
      sample_world_def sample_fs_def sample_parse_def fs_eval find_def findall_def
      sample_csproj_def)

lemma sample_description:
  "get_description sample_world (sample_fs ''<Project/>'' ''LoadIntoLevel.dll'')
   = Inr ''Loads a level.''"
  by (simp add: get_description_def sample_world_def sample_fs_def fs_eval sample_readme_def
      description_of_def summary_header_pattern_match_def py_isspace_def lower_code_def
      str_strip_def)

lemma sample_url: "get_github_url (git_remote sample_world) = Inr ''https://github.com/org/repo.git''"
  by (simp add: sample_world_def str_strip_def py_isspace_def str_startswith_def
      https_prefix_def ssh_prefix_def)

lemma sample_build_manifest:
  "build_manifest sample_world (sample_fs ''<Project/>'' ''LoadIntoLevel.dll'')
   = (Inr (), staged_fs)"
proof -
  have "write_file (sample_fs ''<Project/>'' ''LoadIntoLevel.dll'')
      (pjoin (project_root sample_world) ''manifest.json'') (Bytes sample_manifest)
      = Inr staged_fs"
    by (simp add: staged_fs_def sample_world_def sample_fs_def fs_eval)
  then show ?thesis
    by (simp only: build_manifest_def sample_getters sample_description sample_url sum.case
        prod.case sample_manifest_def [symmetric])
qed

theorem manifest_round_trip_witness:
  "build_manifest sample_world (sample_fs ''<Project/>'' ''LoadIntoLevel.dll'')
   = (Inr (), staged_fs)
   \<and> read_file staged_fs (pjoin (project_root sample_world) ''manifest.json'')
     = Inr (Bytes sample_manifest)
   \<and> json_loads sample_manifest
     = Some [(''dependencies'', StrList [''BepInEx-BepInExPack-5.4.2100'']),
             (''description'', Str ''Loads a level.''),
             (''name'', Str ''Load Into Level''),
             (''version_number'', Str ''1.0.0''),
             (''website_url'', Str ''https://github.com/org/repo.git'')]"
proof -
  from manifest_round_trip [OF sample_build_manifest]
  obtain name description version_number website_url c1 c2 where
    g: "get_mod_name sample_world (sample_fs ''<Project/>'' ''LoadIntoLevel.dll'')
          \<lparr>csproj_root = None\<rparr> = Inr (name, c1)"
      "get_description sample_world (sample_fs ''<Project/>'' ''LoadIntoLevel.dll'')
        = Inr description"
      "get_dll_version sample_world (sample_fs ''<Project/>'' ''LoadIntoLevel.dll'') c1
        = Inr (version_number, c2)"
      "get_github_url (git_remote sample_world) = Inr website_url"
    and r: "read_file staged_fs (pjoin (project_root sample_world) ''manifest.json'')
        = Inr (Bytes (json_dumps (manifest_dict name description version_number website_url)))"
    and l: "json_loads (json_dumps (manifest_dict name description version_number website_url))
        = Some [(''dependencies'', StrList [''BepInEx-BepInExPack-5.4.2100'']),
                (''description'', Str description),
                (''name'', Str name),
                (''version_number'', Str version_number),
                (''website_url'', Str website_url)]"
    by blast
  from g(1) have n: "name = ''Load Into Level''" "c1 = \<lparr>csproj_root = Some sample_csproj\<rparr>"
    by (simp_all add: sample_getters)
  from g(2) have d: "description = ''Loads a level.''" by (simp add: sample_description)
  from g(3) n(2) have v: "version_number = ''1.0.0''" by (simp add: sample_getters)
  from g(4) have u: "website_url = ''https://github.com/org/repo.git''" by (simp add: sample_url)
  from r l show ?thesis
    unfolding n d v u sample_manifest_def [symmetric] by (simp add: sample_build_manifest)
qed

subsection \<open>A project file with blanks around its fields\<close>





subsection \<open>Two runs of the sample project\<close>

lemma sample_env0: "wf_env sample_world (sample_fs ''<Project/>'' ''LoadIntoLevel.dll'')"
  by (simp add: wf_env_def wf_fs_def sample_world_def sample_fs_def proper_name_def node_at_def)

lemma sample_fields:
  "field_holds sample_csproj (''PropertyGroup'', ''AssemblyName'') ''LoadIntoLevel''"
  "field_holds sample_csproj (''PropertyGroup'', ''Product'') ''Load Into Level''"
  "field_holds sample_csproj (''PropertyGroup'', ''Version'') ''1.0.0''"
  by (simp_all add: field_holds_eval findall_def sample_csproj_def)

lemma sample_finds:
  "find sample_csproj (''PropertyGroup'', ''AssemblyName'')
     = Some (Element ''AssemblyName'' (Some ''LoadIntoLevel'') [])"
  "find sample_csproj (''PropertyGroup'', ''Product'')
     = Some (Element ''Product'' (Some ''Load Into Level'') [])"
  "find sample_csproj (''PropertyGroup'', ''Version'')
     = Some (Element ''Version'' (Some ''1.0.0'') [])"
  by (simp_all add: find_def findall_def sample_csproj_def)

lemma sample_main:
  "main sample_world (sample_fs ''<Project/>'' ''LoadIntoLevel.dll'') = (Inr (), packaged_fs)"
proof -
  have "load_csproj sample_world staged_fs \<lparr>csproj_root = None\<rparr> (csproj_path sample_world)
      = Inr (sample_csproj, \<lparr>csproj_root = Some sample_csproj\<rparr>)"
    by (simp add: load_csproj_def csproj_path_def PROJECT_NAME_def sample_world_def
        staged_fs_def sample_fs_def sample_parse_def fs_eval)
  then have "new_file_packager sample_world staged_fs = Inr sample_packager"
    unfolding sample_packager_def
    by (rule new_file_packager_eq
        [OF _ sample_finds(1) _ _ sample_finds(2) _ _ sample_finds(3)]) simp_all
  then show ?thesis
    by (simp add: main_def sample_build_manifest sample_process)
qed

lemma later_packager_eq:
  "make_packager (sample_world\<lparr>now := sample_later\<rparr>) ''LoadIntoLevel'' ''Load Into Level''
     ''1.0.0'' =
     \<lparr>dll_name = ''LoadIntoLevel.dll'',
      dll_source_path = [''work'', ''Mod'', ''bin'', ''Debug'', ''net472'', ''LoadIntoLevel.dll''],
      dist_dir = [''work'', ''Mod'', ''dist''],
      temp_dir = [''work'', ''Mod'', ''dist'', ''temp_package_20260102030406''],
      zip_file_name = [''work'', ''Mod'', ''dist'', ''Load Into Level-1.0.0.zip'']\<rparr>"
  by (simp add: make_packager_def sample_world_def sample_later_def DLL_SOURCE_FOLDER_def
      pjoin_def parts_def str_startswith_def strftime_def digits2_def decimal.simps digit_def)

lemma later_main:
  "main (sample_world\<lparr>now := sample_later\<rparr>) packaged_fs = (Inr (), packaged_fs)"
proof -
  let ?w = "sample_world\<lparr>now := sample_later\<rparr>"
  let ?c = "\<lparr>csproj_root = Some sample_csproj\<rparr>"
  have load: "load_csproj ?w packaged_fs \<lparr>csproj_root = None\<rparr> (csproj_path ?w)
      = Inr (sample_csproj, ?c)"
    by (simp add: load_csproj_def csproj_path_def PROJECT_NAME_def sample_world_def
        packaged_fs_def staged_fs_def sample_fs_def sample_parse_def fs_eval)
  have cached: "load_csproj ?w packaged_fs ?c (csproj_path ?w) = Inr (sample_csproj, ?c)"
    by (rule load_csproj_cached)
  have n: "get_mod_name ?w packaged_fs \<lparr>csproj_root = None\<rparr> = Inr (''Load Into Level'', ?c)"
    unfolding get_mod_name_def by (rule retreive_ok [OF load sample_finds(2)]) simp_all
  have v: "get_dll_version ?w packaged_fs ?c = Inr (''1.0.0'', ?c)"
    unfolding get_dll_version_def by (rule retreive_ok [OF cached sample_finds(3)]) simp_all
  have d: "get_description ?w packaged_fs = Inr ''Loads a level.''"
    by (simp add: get_description_def sample_world_def packaged_fs_def staged_fs_def
        sample_fs_def fs_eval sample_readme_def description_of_def
        summary_header_pattern_match_def py_isspace_def lower_code_def str_strip_def)
  have u: "get_github_url (git_remote ?w) = Inr ''https://github.com/org/repo.git''"
    using sample_url by simp
  have wr: "write_file packaged_fs (pjoin (project_root ?w) ''manifest.json'')
      (Bytes sample_manifest) = Inr packaged_fs"
    by (simp add: sample_world_def packaged_fs_def staged_fs_def sample_fs_def fs_eval)
  have b: "build_manifest ?w packaged_fs = (Inr (), packaged_fs)"
    using wr
    by (simp only: build_manifest_def n v d u sum.case prod.case sample_manifest_def [symmetric])
  have p: "new_file_packager ?w packaged_fs
      = Inr (make_packager ?w ''LoadIntoLevel'' ''Load Into Level'' ''1.0.0'')"
    using load
    by (rule new_file_packager_eq
        [OF _ sample_finds(1) _ _ sample_finds(2) _ _ sample_finds(3)]) simp_all
  have r: "process ?w (make_packager ?w ''LoadIntoLevel'' ''Load Into Level'' ''1.0.0'')
      packaged_fs = (Inr (), packaged_fs)"
    unfolding later_packager_eq
    by (simp add: process_def prepare_file_spec_def fs_eval mkdir_parents.simps copy_files_def
        zip_files_def DEFAULT_FILESPEC_def sample_world_def destination_name_def
        packaged_fs_def staged_fs_def sample_fs_def)
  show ?thesis by (simp add: main_def b p r)
qed

theorem successive_runs_agree_witness:
  "main sample_world (sample_fs ''<Project/>'' ''LoadIntoLevel.dll'') = (Inr (), packaged_fs)
   \<and> main (sample_world\<lparr>now := sample_later\<rparr>) packaged_fs = (Inr (), packaged_fs)
   \<and> (\<exists>manifest entries.
        read_file packaged_fs (pjoin (project_root sample_world) ''manifest.json'')
          = Inr (Bytes manifest)
        \<and> read_file packaged_fs
            (pjoin (pjoin (project_root sample_world) ''dist'')
               (''Load Into Level'' @ ''-'' @ ''1.0.0'' @ ''.zip''))
          = Inr (Zip entries))"
proof -
  let ?fs = "sample_fs ''<Project/>'' ''LoadIntoLevel.dll''"
  have src: "read_file ?fs (csproj_path sample_world) = Inr (Bytes ''<Project/>'')"
    "et_parse sample_world ''<Project/>'' = Some sample_csproj"
    by (simp_all add: csproj_path_def PROJECT_NAME_def sample_world_def sample_fs_def fs_eval
        sample_parse_def)
  have slash: "CHR ''/'' \<notin> set (''LoadIntoLevel'' @ ''Load Into Level'' @ ''1.0.0'')" by simp
  from successive_runs_agree [OF sample_env0 src sample_fields slash sample_main later_main]
  show ?thesis using sample_main later_main by blast
qed

subsection \<open>An assembly name that leads into a staging directory\<close>

lemma stamped_finds:
  "find stamped_csproj (''PropertyGroup'', ''AssemblyName'')
     = Some (Element ''AssemblyName'' (Some ''../temp_package_20260102030406/x'') [])"
  "find stamped_csproj (''PropertyGroup'', ''Product'')
     = Some (Element ''Product'' (Some ''Load Into Level'') [])"
  "find stamped_csproj (''PropertyGroup'', ''Version'')
     = Some (Element ''Version'' (Some ''1.0.0'') [])"
  by (simp_all add: find_def findall_def stamped_csproj_def)

lemma stamped_packager_eq:
  "make_packager sample_world ''../temp_package_20260102030406/x'' ''Load Into Level''
     ''1.0.0'' =
     \<lparr>dll_name = ''../temp_package_20260102030406/x.dll'',
      dll_source_path = [''work'', ''Mod'', ''bin'', ''Debug'', ''net472'', ''..'',
        ''temp_package_20260102030406'', ''x.dll''],
      dist_dir = [''work'', ''Mod'', ''dist''],
      temp_dir = [''work'', ''Mod'', ''dist'', ''temp_package_20260102030405''],
      zip_file_name = [''work'', ''Mod'', ''dist'', ''Load Into Level-1.0.0.zip'']\<rparr>"
  by (simp add: make_packager_def sample_world_def DLL_SOURCE_FOLDER_def
      pjoin_def parts_def str_startswith_def strftime_def digits2_def decimal.simps digit_def)

lemma stamped_later_packager_eq:
  "make_packager (sample_world\<lparr>now := sample_later\<rparr>) ''../temp_package_20260102030406/x''
     ''Load Into Level'' ''1.0.0'' =
     \<lparr>dll_name = ''../temp_package_20260102030406/x.dll'',
      dll_source_path = [''work'', ''Mod'', ''bin'', ''Debug'', ''net472'', ''..'',
        ''temp_package_20260102030406'', ''x.dll''],
      dist_dir = [''work'', ''Mod'', ''dist''],
      temp_dir = [''work'', ''Mod'', ''dist'', ''temp_package_20260102030406''],
      zip_file_name = [''work'', ''Mod'', ''dist'', ''Load Into Level-1.0.0.zip'']\<rparr>"
  by (simp add: make_packager_def sample_world_def sample_later_def DLL_SOURCE_FOLDER_def
      pjoin_def parts_def str_startswith_def strftime_def digits2_def decimal.simps digit_def)

lemma stamped_run:
  assumes w: "project_root w = project_root sample_world" "et_parse w = sample_parse"
      "git_remote w = git_remote sample_world"
    and fs: "read_file fs (csproj_path sample_world) = Inr (Bytes ''<Stamped/>'')"
      "get_description sample_world fs = Inr ''Loads a level.''"
      "write_file fs (pjoin (project_root sample_world) ''manifest.json'')
         (Bytes sample_manifest) = Inr fsm"
      "read_file fsm (csproj_path sample_world) = Inr (Bytes ''<Stamped/>'')"
    and run: "process w (make_packager w ''../temp_package_20260102030406/x''
        ''Load Into Level'' ''1.0.0'') fsm = (Inr (), fs')"
  shows "main w fs = (Inr (), fs')"
proof -
  let ?c = "\<lparr>csproj_root = Some stamped_csproj\<rparr>"
  have cp: "csproj_path w = csproj_path sample_world"
    by (simp add: csproj_path_def PROJECT_NAME_def w(1))
  have parse: "et_parse w ''<Stamped/>'' = Some stamped_csproj"
    by (simp add: w(2) sample_parse_def)
  have load: "load_csproj w fs \<lparr>csproj_root = None\<rparr> (csproj_path w) = Inr (stamped_csproj, ?c)"
    unfolding cp using fs(1) parse by (rule load_csproj_fresh)
  have loadm: "load_csproj w fsm \<lparr>csproj_root = None\<rparr> (csproj_path w)
      = Inr (stamped_csproj, ?c)"
    unfolding cp using fs(4) parse by (rule load_csproj_fresh)
  have cached: "load_csproj w fs ?c (csproj_path w) = Inr (stamped_csproj, ?c)"
    by (rule load_csproj_cached)
  have n: "get_mod_name w fs \<lparr>csproj_root = None\<rparr> = Inr (''Load Into Level'', ?c)"
    unfolding get_mod_name_def by (rule retreive_ok [OF load stamped_finds(2)]) simp_all
  have v: "get_dll_version w fs ?c = Inr (''1.0.0'', ?c)"
    unfolding get_dll_version_def by (rule retreive_ok [OF cached stamped_finds(3)]) simp_all
  have "get_description w fs = get_description sample_world fs"
    by (simp add: get_description_def w(1))
  with fs(2) have d: "get_description w fs = Inr ''Loads a level.''" by simp
  have u: "get_github_url (git_remote w) = Inr ''https://github.com/org/repo.git''"
    using sample_url by (simp add: w(3))
  have wr: "write_file fs (pjoin (project_root w) ''manifest.json'') (Bytes sample_manifest)
      = Inr fsm"
    using fs(3) by (simp add: w(1))
  have b: "build_manifest w fs = (Inr (), fsm)"
    using wr
    by (simp only: build_manifest_def n v d u sum.case prod.case sample_manifest_def [symmetric])
  have p: "new_file_packager w fsm
      = Inr (make_packager w ''../temp_package_20260102030406/x'' ''Load Into Level'' ''1.0.0'')"
    using loadm
    by (rule new_file_packager_eq
        [OF _ stamped_finds(1) _ _ stamped_finds(2) _ _ stamped_finds(3)]) simp_all
  show ?thesis by (simp add: main_def b p run)
qed

lemma stamped_main:
  "main sample_world stamped_fs0 = (Inr (), stamped_fs1)"
proof (rule stamped_run)
  let ?fsm = "stamped_fs0 @ [([''work'', ''Mod'', ''manifest.json''], File (Bytes sample_manifest))]"
  show "read_file stamped_fs0 (csproj_path sample_world) = Inr (Bytes ''<Stamped/>'')"
    by (simp add: csproj_path_def PROJECT_NAME_def sample_world_def stamped_fs0_def
        stamped_fs_def fs_eval)
  show "get_description sample_world stamped_fs0 = Inr ''Loads a level.''"
    by (simp add: get_description_def sample_world_def stamped_fs0_def stamped_fs_def fs_eval
        sample_readme_def description_of_def summary_header_pattern_match_def py_isspace_def
        lower_code_def str_strip_def)
  show "write_file stamped_fs0 (pjoin (project_root sample_world) ''manifest.json'')
      (Bytes sample_manifest) = Inr ?fsm"
    by (simp add: sample_world_def stamped_fs0_def stamped_fs_def fs_eval)
  show "read_file ?fsm (csproj_path sample_world) = Inr (Bytes ''<Stamped/>'')"
    by (simp add: csproj_path_def PROJECT_NAME_def sample_world_def stamped_fs0_def
        stamped_fs_def fs_eval)
  show "process sample_world (make_packager sample_world ''../temp_package_20260102030406/x''
        ''Load Into Level'' ''1.0.0'') ?fsm = (Inr (), stamped_fs1)"
    unfolding stamped_packager_eq
    by (simp add: process_def prepare_file_spec_def fs_eval mkdir_parents.simps copy_files_def
        zip_files_def DEFAULT_FILESPEC_def sample_world_def destination_name_def
        stamped_fs1_def stamped_fs0_def stamped_fs_def)
qed (simp_all add: sample_world_def)

lemma stamped_later_main:
  "main (sample_world\<lparr>now := sample_later\<rparr>) stamped_fs1 = (Inr (), stamped_fs2)"
proof (rule stamped_run)
  show "read_file stamped_fs1 (csproj_path sample_world) = Inr (Bytes ''<Stamped/>'')"
    by (simp add: csproj_path_def PROJECT_NAME_def sample_world_def stamped_fs1_def
        stamped_fs0_def stamped_fs_def fs_eval)
  show "get_description sample_world stamped_fs1 = Inr ''Loads a level.''"
    by (simp add: get_description_def sample_world_def stamped_fs1_def stamped_fs0_def
        stamped_fs_def fs_eval sample_readme_def description_of_def
        summary_header_pattern_match_def py_isspace_def lower_code_def str_strip_def)
  show "write_file stamped_fs1 (pjoin (project_root sample_world) ''manifest.json'')
      (Bytes sample_manifest) = Inr stamped_fs1"
    by (simp add: sample_world_def stamped_fs1_def stamped_fs0_def stamped_fs_def fs_eval)
  show "read_file stamped_fs1 (csproj_path sample_world) = Inr (Bytes ''<Stamped/>'')"
    by (simp add: csproj_path_def PROJECT_NAME_def sample_world_def stamped_fs1_def
        stamped_fs0_def stamped_fs_def fs_eval)
  show "process (sample_world\<lparr>now := sample_later\<rparr>)
      (make_packager (sample_world\<lparr>now := sample_later\<rparr>)
         ''../temp_package_20260102030406/x'' ''Load Into Level'' ''1.0.0'')
      stamped_fs1 = (Inr (), stamped_fs2)"
    unfolding stamped_later_packager_eq
    by (simp add: process_def prepare_file_spec_def fs_eval mkdir_parents.simps copy_files_def
        zip_files_def DEFAULT_FILESPEC_def sample_world_def destination_name_def
        stamped_fs2_def stamped_fs1_def stamped_fs0_def stamped_fs_def)
qed (simp_all add: sample_world_def)

text \<open>
  C8, as the claim states it, fails. The project file \<^verbatim>\<open><Stamped/>\<close> has the assembly name
  \<^verbatim>\<open>../temp_package_20260102030406/x\<close>, and \<^verbatim>\<open>dist\<close> has a directory of that name. A run
  at 03:04:05 and a run at 03:04:06 both end normally, and the project file, the README,
  the icon and the DLL are the same before both; the manifest is the same after both.
  The first run copies the DLL into the directory that is there, outside its staging
  directory, and its archive has three entries; the second run stages into that very
  directory, and its archive has the DLL as a fourth entry.
\<close>

theorem successive_archives_differ:
  "wf_env sample_world stamped_fs0
   \<and> main sample_world stamped_fs0 = (Inr (), stamped_fs1)
   \<and> main (sample_world\<lparr>now := sample_later\<rparr>) stamped_fs1 = (Inr (), stamped_fs2)
   \<and> read_file stamped_fs1 [''work'', ''Mod'', ''Mod.csproj'']
       = read_file stamped_fs0 [''work'', ''Mod'', ''Mod.csproj'']
   \<and> read_file stamped_fs1 [''work'', ''Mod'', ''README.md'']
       = read_file stamped_fs0 [''work'', ''Mod'', ''README.md'']
   \<and> read_file stamped_fs1 [''work'', ''Mod'', ''img'', ''icon.png'']
       = read_file stamped_fs0 [''work'', ''Mod'', ''img'', ''icon.png'']
   \<and> read_file stamped_fs1
         [''work'', ''Mod'', ''bin'', ''Debug'', ''net472'', ''..'',
          ''temp_package_20260102030406'', ''x.dll'']
       = read_file stamped_fs0
         [''work'', ''Mod'', ''bin'', ''Debug'', ''net472'', ''..'',
          ''temp_package_20260102030406'', ''x.dll'']
   \<and> read_file stamped_fs1 [''work'', ''Mod'', ''manifest.json'']
       = Inr (Bytes sample_manifest)
   \<and> read_file stamped_fs2 [''work'', ''Mod'', ''manifest.json'']
       = Inr (Bytes sample_manifest)
   \<and> read_file stamped_fs1 [''work'', ''Mod'', ''dist'', ''Load Into Level-1.0.0.zip'']
       = Inr (Zip [([''manifest.json''], Bytes sample_manifest),
                   ([''icon.png''], Bytes ''PNG''),
                   ([''README.md''], Bytes sample_readme)])
   \<and> read_file stamped_fs2 [''work'', ''Mod'', ''dist'', ''Load Into Level-1.0.0.zip'']
       = Inr (Zip [([''manifest.json''], Bytes sample_manifest),
                   ([''icon.png''], Bytes ''PNG''),
                   ([''README.md''], Bytes sample_readme),
                   ([''x.dll''], Bytes ''MZ'')])"
proof -
  have "wf_env sample_world stamped_fs0"
    by (simp add: wf_env_def wf_fs_def sample_world_def stamped_fs0_def stamped_fs_def
        proper_name_def node_at_def)
  moreover have
    "read_file stamped_fs1 [''work'', ''Mod'', ''Mod.csproj'']
       = read_file stamped_fs0 [''work'', ''Mod'', ''Mod.csproj'']"
    "read_file stamped_fs1 [''work'', ''Mod'', ''README.md'']
       = read_file stamped_fs0 [''work'', ''Mod'', ''README.md'']"
    "read_file stamped_fs1 [''work'', ''Mod'', ''img'', ''icon.png'']
       = read_file stamped_fs0 [''work'', ''Mod'', ''img'', ''icon.png'']"
    "read_file stamped_fs1
         [''work'', ''Mod'', ''bin'', ''Debug'', ''net472'', ''..'',
          ''temp_package_20260102030406'', ''x.dll'']
       = read_file stamped_fs0
         [''work'', ''Mod'', ''bin'', ''Debug'', ''net472'', ''..'',
          ''temp_package_20260102030406'', ''x.dll'']"
    "read_file stamped_fs1 [''work'', ''Mod'', ''manifest.json'']
       = Inr (Bytes sample_manifest)"
    "read_file stamped_fs1 [''work'', ''Mod'', ''dist'', ''Load Into Level-1.0.0.zip'']
       = Inr (Zip [([''manifest.json''], Bytes sample_manifest),
                   ([''icon.png''], Bytes ''PNG''),
                   ([''README.md''], Bytes sample_readme)])"
    by (simp_all add: stamped_fs1_def stamped_fs0_def stamped_fs_def fs_eval)
  moreover have
    "read_file stamped_fs2 [''work'', ''Mod'', ''manifest.json'']
       = Inr (Bytes sample_manifest)"
    "read_file stamped_fs2 [''work'', ''Mod'', ''dist'', ''Load Into Level-1.0.0.zip'']
       = Inr (Zip [([''manifest.json''], Bytes sample_manifest),
                   ([''icon.png''], Bytes ''PNG''),
                   ([''README.md''], Bytes sample_readme),
                   ([''x.dll''], Bytes ''MZ'')])"
    by (simp_all add: stamped_fs2_def stamped_fs_def fs_eval)
  ultimately show ?thesis using stamped_main stamped_later_main by simp
qed

end
